theory Spec2Isabelle
  imports Main "HOL-Library.Sublist"
begin

section \<open>Python values used by memory-capture-franklin.py\<close>

subsection \<open>Strings\<close>

text \<open>
  A Python \<open>str\<close> is modelled as a \<open>string\<close>, one \<open>char\<close> per code point; the model
  therefore covers texts whose code points lie in the range 0..255 (ASCII and Latin-1).
  \<open>len\<close> is \<open>length\<close>, \<open>+\<close> is \<open>@\<close>.
\<close>

text \<open>
  \<open>str.lower()\<close> on one code point: the upper-case letters A..Z (65..90) and the Latin-1
  capitals 192..222 (without the multiplication sign 215) are moved up by 32, which is
  the same as setting bit 5; every other code point of the range is left alone.
\<close>

definition lower_char :: "char \<Rightarrow> char" where
  "lower_char c =
     (let n = (of_char c :: nat) in
      if (65 \<le> n \<and> n \<le> 90) \<or> (192 \<le> n \<and> n \<le> 222 \<and> n \<noteq> 215)
      then (case c of Char b0 b1 b2 b3 b4 b5 b6 b7 \<Rightarrow> Char b0 b1 b2 b3 b4 True b6 b7)
      else c)"

definition lower :: "string \<Rightarrow> string" where
  "lower s = map lower_char s"

text \<open>\<open>s.startswith(p)\<close>.\<close>

fun startswith :: "string \<Rightarrow> string \<Rightarrow> bool" where
  "startswith s [] = True"
| "startswith [] (p # ps) = False"
| "startswith (c # cs) (p # ps) = (c = p \<and> startswith cs ps)"

text \<open>\<open>sub in s\<close> for two strings: \<open>sub\<close> starts at some position of \<open>s\<close>.\<close>

fun contains :: "string \<Rightarrow> string \<Rightarrow> bool" where
  "contains sub [] = (sub = [])"
| "contains sub (c # cs) = (startswith (c # cs) sub \<or> contains sub cs)"

text \<open>
  \<open>str.isspace()\<close> on one code point of the range: tab to carriage return (9..13), the
  separators 28..31, the space, NEL (133) and the no-break space (160).
\<close>

definition is_space :: "char \<Rightarrow> bool" where
  "is_space c =
     (let n = (of_char c :: nat) in
      (9 \<le> n \<and> n \<le> 13) \<or> (28 \<le> n \<and> n \<le> 32) \<or> n = 133 \<or> n = 160)"

text \<open>\<open>s.strip()\<close>: white space removed at both ends.\<close>

definition strip :: "string \<Rightarrow> string" where
  "strip s = rev (dropWhile is_space (rev (dropWhile is_space s)))"

text \<open>\<open>sep.join(parts)\<close> for a list of strings.\<close>

fun str_join :: "string \<Rightarrow> string list \<Rightarrow> string" where
  "str_join sep [] = []"
| "str_join sep [x] = x"
| "str_join sep (x # y # ys) = x @ sep @ str_join sep (y # ys)"

text \<open>\<open>str(n)\<close> for a natural number, as the f-strings of \<open>main\<close> print counts.\<close>

definition digit_char :: "nat \<Rightarrow> char" where
  "digit_char d = ''0123456789'' ! d"

fun str_of_nat :: "nat \<Rightarrow> string" where
  "str_of_nat n =
     (if n < 10 then [digit_char n] else str_of_nat (n div 10) @ [digit_char (n mod 10)])"

subsection \<open>Exceptions\<close>

text \<open>
  An exception is its class and the text \<open>str(e)\<close> gives. All classes below derive from
  \<open>Exception\<close>, so \<open>except Exception\<close> and a bare \<open>except\<close> both catch them. The texts
  of messages the interpreter composes are shortened; no property below depends on them.
\<close>

datatype exc_class =
  TypeError | AttributeError | JSONDecodeError | TimeoutExpired | OSError

datatype error = Exc exc_class string

fun str_of_error :: "error \<Rightarrow> string" where
  "str_of_error (Exc k m) = m"

subsection \<open>JSON values\<close>

text \<open>
  What \<open>json.loads\<close> returns: \<open>None\<close>, a bool, a number, a str, a list, or a dict with
  string keys (an association list read with \<open>map_of\<close>). Numbers are integers here; no
  function of the program looks into a number.
\<close>

datatype json =
  JNull
| JBool bool
| JNum int
| JStr string
| JList "json list"
| JDict "(string \<times> json) list"

text \<open>\<open>d.get(k, default)\<close> on a dict.\<close>

definition dict_get :: "(string \<times> json) list \<Rightarrow> string \<Rightarrow> json \<Rightarrow> json" where
  "dict_get kvs k dflt = (case map_of kvs k of Some v \<Rightarrow> v | None \<Rightarrow> dflt)"

text \<open>\<open>v.get(k, default)\<close> on any value: only a dict has the method.\<close>

fun py_get :: "json \<Rightarrow> string \<Rightarrow> json \<Rightarrow> error + json" where
  "py_get (JDict kvs) k dflt = Inr (dict_get kvs k dflt)"
| "py_get v k dflt = Inl (Exc AttributeError ''object has no attribute get'')"

text \<open>
  \<open>for x in v\<close>: the elements of a list, the characters of a str, the keys of a dict;
  anything else is not iterable.
\<close>

fun py_iter :: "json \<Rightarrow> error + json list" where
  "py_iter (JList xs) = Inr xs"
| "py_iter (JStr s) = Inr (map (\<lambda>c. JStr [c]) s)"
| "py_iter (JDict kvs) = Inr (map (\<lambda>kv. JStr (fst kv)) kvs)"
| "py_iter v = Inl (Exc TypeError ''object is not iterable'')"

text \<open>\<open>len(v)\<close>.\<close>

fun py_len :: "json \<Rightarrow> error + nat" where
  "py_len (JList xs) = Inr (length xs)"
| "py_len (JStr s) = Inr (length s)"
| "py_len (JDict kvs) = Inr (length kvs)"
| "py_len v = Inl (Exc TypeError ''object has no len()'')"

text \<open>Truth value of a value, as \<open>if not v\<close> tests it.\<close>

fun truthy :: "json \<Rightarrow> bool" where
  "truthy JNull = False"
| "truthy (JBool b) = b"
| "truthy (JNum n) = (n \<noteq> 0)"
| "truthy (JStr s) = (s \<noteq> [])"
| "truthy (JList xs) = (xs \<noteq> [])"
| "truthy (JDict kvs) = (kvs \<noteq> [])"

text \<open>
  \<open>sub in v\<close> for a string \<open>sub\<close>: substring of a str, element of a list, key of a dict;
  \<open>None\<close>, a bool and a number raise TypeError.
\<close>

fun py_str_in :: "string \<Rightarrow> json \<Rightarrow> error + bool" where
  "py_str_in sub (JStr s) = Inr (contains sub s)"
| "py_str_in sub (JList xs) = Inr (JStr sub \<in> set xs)"
| "py_str_in sub (JDict kvs) = Inr (sub \<in> set (map fst kvs))"
| "py_str_in sub v = Inl (Exc TypeError ''argument is not iterable'')"

text \<open>
  \<open>sep.join(parts)\<close> for a list of values: TypeError unless every item is a str.
\<close>

fun strs_of :: "json list \<Rightarrow> string list option" where
  "strs_of [] = Some []"
| "strs_of (JStr s # vs) = (case strs_of vs of Some ss \<Rightarrow> Some (s # ss) | None \<Rightarrow> None)"
| "strs_of (v # vs) = None"

definition py_join :: "string \<Rightarrow> json list \<Rightarrow> error + string" where
  "py_join sep vs =
     (case strs_of vs of
        Some ss \<Rightarrow> Inr (str_join sep ss)
      | None \<Rightarrow> Inl (Exc TypeError ''sequence item: expected str instance''))"

section \<open>Text heuristics\<close>

text \<open>\<open>extract_text_content(msg)\<close>: the loop that collects the texts, then the function.\<close>

fun collect_texts :: "json list \<Rightarrow> json list" where
  "collect_texts [] = []"
| "collect_texts (JDict kvs # items) =
     (if dict_get kvs ''type'' JNull = JStr ''text''
      then dict_get kvs ''text'' (JStr []) # collect_texts items
      else collect_texts items)"
| "collect_texts (item # items) = collect_texts items"

definition extract_text_content :: "json \<Rightarrow> error + string" where
  "extract_text_content msg =
     (case py_get msg ''content'' (JList []) of
        Inl e \<Rightarrow> Inl e
      | Inr content \<Rightarrow>
          (case content of
             JList items \<Rightarrow>
               (case py_join '' '' (collect_texts items) of
                  Inl e \<Rightarrow> Inl e
                | Inr joined \<Rightarrow> Inr (strip joined))
           | JStr s \<Rightarrow> Inr (strip s)
           | _ \<Rightarrow> Inr []))"

text \<open>\<open>is_important(text)\<close>, with its list \<open>keywords\<close> (the name is reserved in Isabelle).\<close>

definition important_keywords :: "string list" where
  "important_keywords =
     [''decided'', ''decision'', ''determined'', ''choose'', ''selected'', ''committed'',
      ''discovered'', ''found'', ''realized'', ''learned'', ''insight'', ''identified'',
      ''implemented'', ''built'', ''created'', ''fixed'', ''solved'', ''completed'',
      ''issue'', ''problem'', ''bug'', ''error'', ''blocker'', ''blocked'',
      ''success'', ''succeeded'', ''working'', ''resolved'', ''achieved'']"

text \<open>\<open>any(kw in text_lower for kw in kws)\<close>.\<close>

definition any_kw :: "string list \<Rightarrow> string \<Rightarrow> bool" where
  "any_kw kws text_lower = list_ex (\<lambda>kw. contains kw text_lower) kws"

definition is_important :: "string \<Rightarrow> bool" where
  "is_important text =
     (let text_lower = lower text in
      any_kw important_keywords text_lower \<and> length text > 40)"

text \<open>\<open>get_category(text)\<close>, with its five keyword lists in the order of the branches.\<close>

definition decision_keywords :: "string list" where
  "decision_keywords = [''decided'', ''decision'', ''determined'']"

definition discovery_keywords :: "string list" where
  "discovery_keywords = [''discovered'', ''found'', ''realized'', ''insight'']"

definition implementation_keywords :: "string list" where
  "implementation_keywords = [''implemented'', ''built'', ''created'', ''fixed'']"

definition issue_keywords :: "string list" where
  "issue_keywords = [''issue'', ''problem'', ''bug'', ''error'', ''blocker'']"

definition success_keywords :: "string list" where
  "success_keywords = [''success'', ''succeeded'', ''resolved'', ''completed'']"

definition get_category :: "string \<Rightarrow> string" where
  "get_category text =
     (let text_lower = lower text in
      if any_kw decision_keywords text_lower then ''decision''
      else if any_kw discovery_keywords text_lower then ''discovery''
      else if any_kw implementation_keywords text_lower then ''implementation''
      else if any_kw issue_keywords text_lower then ''issue''
      else if any_kw success_keywords text_lower then ''success''
      else ''outcome'')"

section \<open>Paths and the file system\<close>

text \<open>\<open>os.path.join(a, *parts)\<close> and \<open>os.path.dirname(p)\<close> of \<open>posixpath\<close>.\<close>

fun os_path_join :: "string \<Rightarrow> string list \<Rightarrow> string" where
  "os_path_join path [] = path"
| "os_path_join path (b # bs) =
     os_path_join
       (if startswith b ''/'' then b
        else if path = [] \<or> last path = CHR ''/'' then path @ b
        else path @ ''/'' @ b) bs"

definition os_path_dirname :: "string \<Rightarrow> string" where
  "os_path_dirname p =
     (let head = rev (dropWhile (\<lambda>c. c \<noteq> CHR ''/'') (rev p)) in
      if head \<noteq> [] \<and> \<not> list_all (\<lambda>c. c = CHR ''/'') head
      then rev (dropWhile (\<lambda>c. c = CHR ''/'') (rev head))
      else head)"

definition WORKSPACE :: string where
  "WORKSPACE = ''/root/clawd''"

definition STREAM_FILE :: string where
  "STREAM_FILE = os_path_join WORKSPACE [''memory'', ''stream.log'']"

definition STATE_FILE :: string where
  "STATE_FILE = os_path_join WORKSPACE [''.memory-capture-state'']"

text \<open>
  The file system: what is at each path (a directory, or a regular file with its text),
  and the calls made so far, each with the path it was given. Permissions and encodings
  are not modelled: a regular file can be read and appended to, a directory cannot.
\<close>

datatype node = Dir | File string

datatype fs_op = Exists string | Read string | Mkdir string | Append string

fun op_path :: "fs_op \<Rightarrow> string" where
  "op_path (Exists p) = p"
| "op_path (Read p) = p"
| "op_path (Mkdir p) = p"
| "op_path (Append p) = p"

record fs =
  nodes :: "string \<rightharpoonup> node"
  trace :: "fs_op list"

text \<open>\<open>os.path.exists(p)\<close>.\<close>

definition path_exists :: "fs \<Rightarrow> string \<Rightarrow> bool \<times> fs" where
  "path_exists s p = (nodes s p \<noteq> None, s\<lparr>trace := trace s @ [Exists p]\<rparr>)"

text \<open>\<open>with open(p, 'r') as f: f.read()\<close>.\<close>

definition read_file :: "fs \<Rightarrow> string \<Rightarrow> (error + string) \<times> fs" where
  "read_file s p =
     (case nodes s p of
        Some (File c) \<Rightarrow> Inr c
      | Some Dir \<Rightarrow> Inl (Exc OSError ''Is a directory'')
      | None \<Rightarrow> Inl (Exc OSError ''No such file or directory''),
      s\<lparr>trace := trace s @ [Read p]\<rparr>)"

text \<open>
  \<open>os.makedirs(d, exist_ok=True)\<close>: \<open>dir_chain d\<close> lists the ancestors of \<open>d\<close> below the
  root and \<open>d\<close> itself, outermost first; each one is kept when it is a directory, created
  when nothing is there, and an error when a regular file is in the way.
\<close>

fun dir_chain_from :: "string \<Rightarrow> string \<Rightarrow> string list" where
  "dir_chain_from acc [] = (if acc = [] \<or> last acc = CHR ''/'' then [] else [acc])"
| "dir_chain_from acc (c # cs) =
     (if c = CHR ''/'' \<and> acc \<noteq> [] \<and> last acc \<noteq> CHR ''/''
      then acc # dir_chain_from (acc @ [c]) cs
      else dir_chain_from (acc @ [c]) cs)"

definition dir_chain :: "string \<Rightarrow> string list" where
  "dir_chain d = dir_chain_from [] d"

fun makedirs_chain :: "fs \<Rightarrow> string list \<Rightarrow> error option \<times> fs" where
  "makedirs_chain s [] = (None, s)"
| "makedirs_chain s (p # ps) =
     (let s1 = s\<lparr>trace := trace s @ [Mkdir p]\<rparr> in
      case nodes s p of
        Some Dir \<Rightarrow> makedirs_chain s1 ps
      | Some (File c) \<Rightarrow> (Some (Exc OSError ''File exists''), s1)
      | None \<Rightarrow> makedirs_chain (s1\<lparr>nodes := (nodes s1)(p \<mapsto> Dir)\<rparr>) ps)"

definition makedirs :: "fs \<Rightarrow> string \<Rightarrow> error option \<times> fs" where
  "makedirs s d = makedirs_chain s (dir_chain d)"

text \<open>
  \<open>with open(p, 'a') as f: f.write(...)\<close>: the writes of one \<open>with\<close> block reach the
  file together, at its end; the file is created when its directory exists.
\<close>

definition append_file :: "fs \<Rightarrow> string \<Rightarrow> string \<Rightarrow> error option \<times> fs" where
  "append_file s p out =
     (let s1 = s\<lparr>trace := trace s @ [Append p]\<rparr> in
      case nodes s p of
        Some (File c) \<Rightarrow> (None, s1\<lparr>nodes := (nodes s1)(p \<mapsto> File (c @ out))\<rparr>)
      | Some Dir \<Rightarrow> (Some (Exc OSError ''Is a directory''), s1)
      | None \<Rightarrow>
          (if nodes s (os_path_dirname p) = Some Dir
           then (None, s1\<lparr>nodes := (nodes s1)(p \<mapsto> File out)\<rparr>)
           else (Some (Exc OSError ''No such file or directory''), s1)))"

section \<open>The stream log\<close>

text \<open>
  \<open>get_hash(text)\<close>. The library call \<open>hashlib.md5(text.encode()).hexdigest()\<close> is the
  parameter \<open>md5_hex\<close>; \<open>[:16]\<close> keeps its first 16 characters.
\<close>

definition get_hash :: "(string \<Rightarrow> string) \<Rightarrow> string \<Rightarrow> string" where
  "get_hash md5_hex text = take 16 (md5_hex text)"

text \<open>
  \<open>already_captured(hash_val)\<close>. The bare \<open>except\<close> turns a failed read into False.
\<close>

definition already_captured :: "fs \<Rightarrow> string \<Rightarrow> bool \<times> fs" where
  "already_captured s hash_val =
     (case path_exists s STREAM_FILE of
        (False, s1) \<Rightarrow> (False, s1)
      | (True, s1) \<Rightarrow>
          (case read_file s1 STREAM_FILE of
             (Inl e, s2) \<Rightarrow> (False, s2)
           | (Inr content, s2) \<Rightarrow> (contains (''hash:'' @ hash_val) content, s2)))"

text \<open>
  The four writes of \<open>append_to_stream\<close>; \<open>timestamp\<close> is what
  \<open>datetime.now().strftime('%Y-%m-%d %H:%M:%S UTC')\<close> gives at the call.
\<close>

definition entry_block :: "string \<Rightarrow> string \<Rightarrow> string \<Rightarrow> string \<Rightarrow> string" where
  "entry_block timestamp category text hash_val =
     ''\<newline>---\<newline>''
     @ (''['' @ timestamp @ ''] ['' @ category @ '']\<newline>'')
     @ (text @ ''\<newline>'')
     @ (''hash:'' @ hash_val @ ''\<newline>'')"

text \<open>
  \<open>append_to_stream(text, category)\<close>. An exception of \<open>os.makedirs\<close> or of the \<open>with\<close>
  block is not caught: the result is \<open>Inl\<close>.
\<close>

definition append_to_stream ::
  "(string \<Rightarrow> string) \<Rightarrow> string \<Rightarrow> fs \<Rightarrow> string \<Rightarrow> string \<Rightarrow> (error + bool) \<times> fs" where
  "append_to_stream md5_hex timestamp s text category =
     (let hash_val = get_hash md5_hex text in
      case already_captured s hash_val of
        (True, s1) \<Rightarrow> (Inr False, s1)
      | (False, s1) \<Rightarrow>
          (case makedirs s1 (os_path_dirname STREAM_FILE) of
             (Some e, s2) \<Rightarrow> (Inl e, s2)
           | (None, s2) \<Rightarrow>
               (case append_file s2 STREAM_FILE (entry_block timestamp category text hash_val) of
                  (Some e, s3) \<Rightarrow> (Inl e, s3)
                | (None, s3) \<Rightarrow> (Inr True, s3))))"

section \<open>Fetching the messages\<close>

text \<open>
  \<open>log(msg)\<close> prints one line to the error stream; the lines printed so far are a list,
  without the clock prefix.
\<close>

definition log :: "string list \<Rightarrow> string \<Rightarrow> string list" where
  "log diag msg = diag @ [msg]"

text \<open>
  What \<open>subprocess.run(argv, capture_output=True, text=True, timeout=15)\<close> does is the
  parameter \<open>cli\<close>: for an argument vector it completes with an exit code, standard output
  and standard error, or raises (the command is missing, the 15 seconds are over, ...).
  \<open>run_openclaw(*args)\<close> turns either into a triple; an argument that is not a str makes
  \<open>subprocess.run\<close> raise TypeError, which the same \<open>except\<close> catches.
\<close>

datatype proc_result = Completed int string string | Raised error

definition run_openclaw ::
  "(string list \<Rightarrow> proc_result) \<Rightarrow> json list \<Rightarrow> bool \<times> string \<times> string" where
  "run_openclaw cli args =
     (case strs_of args of
        None \<Rightarrow> (False, [], ''expected str, bytes or os.PathLike object'')
      | Some argv \<Rightarrow>
          (case cli (''openclaw'' # argv) of
             Completed returncode out err \<Rightarrow> (returncode = 0, out, err)
           | Raised e \<Rightarrow> (False, [], str_of_error e)))"

definition sessions_list_args :: "json list" where
  "sessions_list_args =
     [JStr ''sessions_list'', JStr ''--limit'', JStr ''5'', JStr ''--format'', JStr ''json'']"

definition sessions_history_args :: "json \<Rightarrow> json list" where
  "sessions_history_args session_key =
     [JStr ''sessions_history'', session_key,
      JStr ''--limit'', JStr ''10'', JStr ''--format'', JStr ''json'']"

text \<open>The loop of \<open>get_recent_messages\<close> that looks for the main session.\<close>

fun find_main_session :: "json list \<Rightarrow> error + json option" where
  "find_main_session [] = Inr None"
| "find_main_session (s # rest) =
     (case py_get s ''key'' JNull of
        Inl e \<Rightarrow> Inl e
      | Inr k \<Rightarrow>
          if k = JStr ''agent:main:main'' then Inr (Some s)
          else
            (case py_get s ''key'' (JStr []) of
               Inl e \<Rightarrow> Inl e
             | Inr k' \<Rightarrow>
                 (case py_str_in ''main'' k' of
                    Inl e \<Rightarrow> Inl e
                  | Inr True \<Rightarrow> Inr (Some s)
                  | Inr False \<Rightarrow> find_main_session rest)))"

text \<open>
  The body of the \<open>try\<close> of \<open>get_recent_messages\<close>, in its two parts; each returns
  or raises, and \<open>loads\<close> is \<open>json.loads\<close>. First (\<open># Find main session\<close>): the output
  of the first call is parsed, the main session is looked for, and its key is taken;
  \<open>None\<close> stands for "Main session not found".
\<close>

definition find_session_key :: "(string \<Rightarrow> error + json) \<Rightarrow> string \<Rightarrow> error + json option" where
  "find_session_key loads out =
     (case loads out of
        Inl e \<Rightarrow> Inl e
      | Inr data \<Rightarrow>
     (case py_get data ''sessions'' (JList []) of
        Inl e \<Rightarrow> Inl e
      | Inr sessions \<Rightarrow>
     (case py_iter sessions of
        Inl e \<Rightarrow> Inl e
      | Inr ss \<Rightarrow>
     (case find_main_session ss of
        Inl e \<Rightarrow> Inl e
      | Inr None \<Rightarrow> Inr None
      | Inr (Some main_session) \<Rightarrow>
          if \<not> truthy main_session then Inr None
          else
            (case py_get main_session ''key'' JNull of
               Inl e \<Rightarrow> Inl e
             | Inr session_key \<Rightarrow> Inr (Some session_key))))))"

text \<open>
  Second (\<open># Get history for main session\<close>): the history of the session is asked for
  and parsed; the result is the value returned with the lines logged.
\<close>

definition get_history ::
  "(string list \<Rightarrow> proc_result) \<Rightarrow> (string \<Rightarrow> error + json) \<Rightarrow> json
   \<Rightarrow> error + (json \<times> string list)" where
  "get_history cli loads session_key =
     (case run_openclaw cli (sessions_history_args session_key) of
        (success, out, err) \<Rightarrow>
          if \<not> success then Inr (JList [], log [] (''Failed to get history: '' @ err))
          else
            (case loads out of
               Inl e \<Rightarrow> Inl e
             | Inr data \<Rightarrow>
            (case py_get data ''messages'' (JList []) of
               Inl e \<Rightarrow> Inl e
             | Inr messages \<Rightarrow> Inr (messages, []))))"

definition get_recent_messages_try ::
  "(string list \<Rightarrow> proc_result) \<Rightarrow> (string \<Rightarrow> error + json) \<Rightarrow> string
   \<Rightarrow> error + (json \<times> string list)" where
  "get_recent_messages_try cli loads out =
     (case find_session_key loads out of
        Inl e \<Rightarrow> Inl e
      | Inr None \<Rightarrow> Inr (JList [], log [] ''Main session not found'')
      | Inr (Some session_key) \<Rightarrow> get_history cli loads session_key)"

text \<open>\<open>get_recent_messages()\<close>: the value returned and the lines logged.\<close>

definition get_recent_messages ::
  "(string list \<Rightarrow> proc_result) \<Rightarrow> (string \<Rightarrow> error + json) \<Rightarrow> json \<times> string list" where
  "get_recent_messages cli loads =
     (case run_openclaw cli sessions_list_args of
        (success, out, err) \<Rightarrow>
          if \<not> success then (JList [], log [] (''Failed to list sessions: '' @ err))
          else
            (case get_recent_messages_try cli loads out of
               Inl e \<Rightarrow> (JList [], log [] (''Error parsing sessions: '' @ str_of_error e))
             | Inr r \<Rightarrow> r))"

section \<open>The run\<close>

text \<open>
  The loop of \<open>main\<close> over the messages. \<open>clock i\<close> is the time stamp at the message of
  index \<open>i\<close>; the result is the exception that ended the loop or the number of entries
  captured, with the file system and the lines logged.
\<close>

fun capture_loop ::
  "(string \<Rightarrow> string) \<Rightarrow> (nat \<Rightarrow> string) \<Rightarrow> nat \<Rightarrow> fs \<Rightarrow> string list \<Rightarrow> nat \<Rightarrow> json list
   \<Rightarrow> (error + nat) \<times> fs \<times> string list" where
  "capture_loop md5_hex clock i s diag captured [] = (Inr captured, s, diag)"
| "capture_loop md5_hex clock i s diag captured (msg # rest) =
     (case extract_text_content msg of
        Inl e \<Rightarrow> (Inl e, s, diag)
      | Inr text \<Rightarrow>
          if text = [] then capture_loop md5_hex clock (i + 1) s diag captured rest
          else if is_important text then
            (let category = get_category text in
             case append_to_stream md5_hex (clock i) s text category of
               (Inl e, s') \<Rightarrow> (Inl e, s', diag)
             | (Inr True, s') \<Rightarrow>
                 capture_loop md5_hex clock (i + 1) s'
                   (log diag (''Captured: '' @ category)) (captured + 1) rest
             | (Inr False, s') \<Rightarrow>
                 capture_loop md5_hex clock (i + 1) s' diag captured rest)
          else capture_loop md5_hex clock (i + 1) s diag captured rest)"

text \<open>
  \<open>main()\<close>: the exception that ended the run, if any, the file system and the lines
  logged.
\<close>

definition main ::
  "(string \<Rightarrow> string) \<Rightarrow> (nat \<Rightarrow> string) \<Rightarrow> (string list \<Rightarrow> proc_result)
   \<Rightarrow> (string \<Rightarrow> error + json) \<Rightarrow> fs \<Rightarrow> error option \<times> fs \<times> string list" where
  "main md5_hex clock cli loads s =
     (let d0 = log [] ''MemoryCapture Franklin starting...'' in
      case get_recent_messages cli loads of
        (messages, d1) \<Rightarrow>
          if \<not> truthy messages then (None, s, log (d0 @ d1) ''No messages found'')
          else
            (case py_len messages of
               Inl e \<Rightarrow> (Some e, s, d0 @ d1)
             | Inr n \<Rightarrow>
                 (let d2 = log (d0 @ d1) (''Found '' @ str_of_nat n @ '' messages to analyze'') in
                  case py_iter messages of
                    Inl e \<Rightarrow> (Some e, s, d2)
                  | Inr msgs \<Rightarrow>
                      (case capture_loop md5_hex clock 0 s d2 0 msgs of
                         (Inl e, s', d3) \<Rightarrow> (Some e, s', d3)
                       | (Inr captured, s', d3) \<Rightarrow>
                           (None, s',
                            log d3 (''Complete: captured '' @ str_of_nat captured
                                    @ '' entries''))))))"

section \<open>Notions of the specification\<close>

text \<open>
  Case-insensitive substring match: some stretch of the text, put in lower case, is the
  keyword.
\<close>

definition ci_contains :: "string \<Rightarrow> string \<Rightarrow> bool" where
  "ci_contains kw text = (\<exists>pre mid suf. text = pre @ mid @ suf \<and> lower mid = kw)"

text \<open>
  The classification as the specification words it: the keyword groups in their priority
  order, the category of the first group that matches, else \<open>outcome\<close>.
\<close>

definition category_table :: "(string \<times> string list) list" where
  "category_table =
     [(''decision'', decision_keywords),
      (''discovery'', discovery_keywords),
      (''implementation'', implementation_keywords),
      (''issue'', issue_keywords),
      (''success'', success_keywords)]"

fun first_match :: "(string \<times> string list) list \<Rightarrow> string \<Rightarrow> string" where
  "first_match [] text = ''outcome''"
| "first_match ((category, kws) # groups) text =
     (if \<exists>kw\<in>set kws. ci_contains kw text then category else first_match groups text)"

definition classify_spec :: "string \<Rightarrow> string" where
  "classify_spec text = first_match category_table text"

text \<open>The keywords of the categories, and those \<open>is_important\<close> knows beyond them.\<close>

definition category_keywords :: "string list" where
  "category_keywords = concat (map snd category_table)"

definition extra_keywords :: "string list" where
  "extra_keywords =
     [''working'', ''achieved'', ''solved'', ''blocked'', ''learned'', ''identified'',
      ''choose'', ''selected'', ''committed'']"

text \<open>
  The text extraction as the specification words it: of the items of a content list,
  those that are dicts tagged with the type \<open>text\<close>, and the \<open>text\<close> field of each
  (the empty string when the field is missing).
\<close>

fun is_text_block :: "json \<Rightarrow> bool" where
  "is_text_block (JDict kvs) = (dict_get kvs ''type'' JNull = JStr ''text'')"
| "is_text_block v = False"

fun text_field :: "json \<Rightarrow> json" where
  "text_field (JDict kvs) = dict_get kvs ''text'' (JStr [])"
| "text_field v = JNull"

fun is_str :: "json \<Rightarrow> bool" where
  "is_str (JStr s) = True"
| "is_str v = False"

fun str_val :: "json \<Rightarrow> string" where
  "str_val (JStr s) = s"
| "str_val v = []"

text \<open>
  The content of the log: the text of the stream file, empty while there is none.
\<close>

definition log_content :: "fs \<Rightarrow> string" where
  "log_content s = (case nodes s STREAM_FILE of Some (File c) \<Rightarrow> c | _ \<Rightarrow> [])"

text \<open>
  The append can succeed: no regular file stands where a directory of the path to the
  log is needed, and the log itself is not a directory.
\<close>

definition log_writable :: "fs \<Rightarrow> bool" where
  "log_writable s =
     ((\<forall>p\<in>set (dir_chain (os_path_dirname STREAM_FILE)). \<forall>c. nodes s p \<noteq> Some (File c))
      \<and> nodes s STREAM_FILE \<noteq> Some Dir)"

text \<open>
  A digest is 16 hexadecimal characters, its marker in the log is \<open>hash:\<close> before it.
  \<open>occurrences sub s\<close> counts the positions of \<open>s\<close> at which \<open>sub\<close> starts, and
  \<open>no_marker_twice\<close> is the property of a log content that no marker occurs twice in it.
\<close>

definition is_digest :: "string \<Rightarrow> bool" where
  "is_digest d = (length d = 16 \<and> list_all (\<lambda>c. c \<in> set ''0123456789abcdef'') d)"

fun occurrences :: "string \<Rightarrow> string \<Rightarrow> nat" where
  "occurrences sub [] = (if sub = [] then 1 else 0)"
| "occurrences sub (c # cs) =
     (if startswith (c # cs) sub then 1 else 0) + occurrences sub cs"

definition no_marker_twice :: "string \<Rightarrow> bool" where
  "no_marker_twice content =
     (\<forall>d. is_digest d \<longrightarrow> occurrences (''hash:'' @ d) content \<le> 1)"

text \<open>
  The part of a block before its marker line: separator, header and text.
\<close>

definition entry_head :: "string \<Rightarrow> string \<Rightarrow> string \<Rightarrow> string" where
  "entry_head timestamp category text =
     ''\<newline>---\<newline>'' @ (''['' @ timestamp @ ''] ['' @ category @ '']\<newline>'') @ text"

text \<open>
  A single-threaded sequence of calls of \<open>append_to_stream\<close>, each with its time stamp,
  text and category: the results in order and the file system at the end. A call that
  raises ends a run of the program; the next call of the sequence belongs to a later run.
\<close>

fun append_all ::
  "(string \<Rightarrow> string) \<Rightarrow> fs \<Rightarrow> (string \<times> string \<times> string) list
   \<Rightarrow> (error + bool) list \<times> fs" where
  "append_all md5_hex s [] = ([], s)"
| "append_all md5_hex s ((timestamp, text, category) # calls) =
     (case append_to_stream md5_hex timestamp s text category of
        (r, s1) \<Rightarrow>
          (case append_all md5_hex s1 calls of (rs, s2) \<Rightarrow> (r # rs, s2)))"

text \<open>The digests of the entries that a sequence of calls appended.\<close>

fun appended_hashes ::
  "(string \<Rightarrow> string) \<Rightarrow> (string \<times> string \<times> string) list \<Rightarrow> (error + bool) list
   \<Rightarrow> string list" where
  "appended_hashes md5_hex ((timestamp, text, category) # calls) (r # rs) =
     (if r = Inr True then get_hash md5_hex text # appended_hashes md5_hex calls rs
      else appended_hashes md5_hex calls rs)"
| "appended_hashes md5_hex calls rs = []"

text \<open>
  The paths the program works on: the log, its directory and the ancestors of that.
  \<open>only_touches P s s'\<close>: from \<open>s\<close> to \<open>s'\<close> every call was given a path of \<open>P\<close>, and
  what is at the paths outside \<open>P\<close> is the same.
\<close>

definition pipeline_paths :: "string set" where
  "pipeline_paths = insert STREAM_FILE (set (dir_chain (os_path_dirname STREAM_FILE)))"

definition only_touches :: "string set \<Rightarrow> fs \<Rightarrow> fs \<Rightarrow> bool" where
  "only_touches P s s' =
     ((\<exists>ops. trace s' = trace s @ ops \<and> op_path ` set ops \<subseteq> P)
      \<and> (\<forall>p. p \<notin> P \<longrightarrow> nodes s' p = nodes s p))"

text \<open>
  A file system with nothing in it, a message that quotes a marker line twice, and the
  text of the scenario of the specification.
\<close>

definition empty_fs :: fs where
  "empty_fs = \<lparr>nodes = Map.empty, trace = []\<rparr>"

definition quoting_text :: string where
  "quoting_text =
     ''We decided to keep it, the log shows it twice:\<newline>hash:0123456789abcdef\<newline>hash:0123456789abcdef''"

definition scenario_text :: string where
  "scenario_text = ''We decided to use hashing for deduplication because it's simple''"

text \<open>
  Command lines and a parser to run the program on. \<open>example_loads\<close> knows two outputs:
  a session list with the main session, and a history with two messages, the text of
  the scenario once as a string and once as a list of blocks. \<open>cli_ok\<close> answers both
  calls with them; \<open>cli_timeout\<close> never answers in time; with \<open>cli_history_fails\<close> the
  history call ends with exit code 1; with \<open>cli_history_garbled\<close> it prints something
  that is not JSON.
\<close>

definition example_loads :: "string \<Rightarrow> error + json" where
  "example_loads out =
     (if out = ''SESSIONS''
      then Inr (JDict [(''sessions'',
                  JList [JDict [(''key'', JStr ''agent:cron:nightly'')],
                         JDict [(''key'', JStr ''agent:main:main'')]])])
      else if out = ''HISTORY''
      then Inr (JDict [(''messages'',
                  JList [JDict [(''role'', JStr ''user''), (''content'', JStr ''ok'')],
                         JDict [(''role'', JStr ''assistant''),
                                (''content'', JStr scenario_text)],
                         JDict [(''role'', JStr ''assistant''),
                                (''content'',
                                 JList [JDict [(''type'', JStr ''text''),
                                               (''text'', JStr scenario_text)]])]])])
      else Inl (Exc JSONDecodeError ''Expecting value''))"

definition history_argv :: "string list" where
  "history_argv =
     [''openclaw'', ''sessions_history'', ''agent:main:main'', ''--limit'', ''10'',
      ''--format'', ''json'']"

definition list_argv :: "string list" where
  "list_argv = [''openclaw'', ''sessions_list'', ''--limit'', ''5'', ''--format'', ''json'']"

definition cli_ok :: "string list \<Rightarrow> proc_result" where
  "cli_ok argv =
     (if argv = list_argv then Completed 0 ''SESSIONS'' []
      else if argv = history_argv then Completed 0 ''HISTORY'' []
      else Completed 2 [] ''usage: openclaw ...'')"

definition cli_timeout :: "string list \<Rightarrow> proc_result" where
  "cli_timeout argv = Raised (Exc TimeoutExpired ''Command timed out after 15 seconds'')"

definition cli_history_fails :: "string list \<Rightarrow> proc_result" where
  "cli_history_fails argv =
     (if argv = list_argv then Completed 0 ''SESSIONS'' []
      else Completed 1 [] ''session store unavailable'')"

definition cli_history_garbled :: "string list \<Rightarrow> proc_result" where
  "cli_history_garbled argv =
     (if argv = list_argv then Completed 0 ''SESSIONS'' []
      else Completed 0 ''<html>502 Bad Gateway</html>'' [])"

definition example_clock :: "nat \<Rightarrow> string" where
  "example_clock i = ''2025-03-01 10:15:00 UTC''"

section \<open>Strings: the executable tests against their meaning\<close>

lemma startswith_prefix: "startswith s p = prefix p s"
  by (induction s p rule: startswith.induct) auto

lemma contains_sublist: "contains sub s = sublist sub s"
  by (induction s) (auto simp: startswith_prefix sublist_Cons_right)

lemma contains_iff: "contains sub s \<longleftrightarrow> (\<exists>pre suf. s = pre @ sub @ suf)"
  by (simp add: contains_sublist sublist_def)

lemma sublist_map_iff:
  "sublist kw (map f s) \<longleftrightarrow> (\<exists>pre mid suf. s = pre @ mid @ suf \<and> map f mid = kw)"
proof
  assume "sublist kw (map f s)"
  then obtain ps ss where eq: "map f s = ps @ kw @ ss" by (auto simp: sublist_def)
  let ?pre = "take (length ps) s"
  let ?mid = "take (length kw) (drop (length ps) s)"
  let ?suf = "drop (length kw) (drop (length ps) s)"
  have "s = ?pre @ ?mid @ ?suf"
    by (simp only: append_take_drop_id)
  moreover have "map f ?mid = take (length kw) (drop (length ps) (map f s))"
    by (simp add: take_map drop_map)
  then have "map f ?mid = kw" by (simp add: eq)
  ultimately show "\<exists>pre mid suf. s = pre @ mid @ suf \<and> map f mid = kw" by blast
next
  assume "\<exists>pre mid suf. s = pre @ mid @ suf \<and> map f mid = kw"
  then obtain pre mid suf where "s = pre @ mid @ suf" "map f mid = kw" by blast
  then have "map f s = map f pre @ kw @ map f suf" by simp
  then show "sublist kw (map f s)" unfolding sublist_def by blast
qed

lemma ci_contains_lower: "ci_contains kw text = contains kw (lower text)"
  by (simp add: ci_contains_def lower_def sublist_map_iff contains_sublist)

lemma any_kw_iff: "any_kw kws (lower text) \<longleftrightarrow> (\<exists>kw\<in>set kws. ci_contains kw text)"
  by (simp add: any_kw_def list_ex_iff ci_contains_lower)

lemma ci_contains_literal:
  assumes "sublist kw text" and "lower kw = kw"
  shows "ci_contains kw text"
proof -
  from assms(1) obtain pre suf where "text = pre @ kw @ suf" by (auto simp: sublist_def)
  with assms(2) show ?thesis unfolding ci_contains_def by blast
qed

section \<open>The importance test\<close>

text \<open>
  C4. \<open>is_important text\<close> is true exactly when the text has more than 40 characters and
  one of the keywords of the list is a case-insensitive substring of it; so a text of
  fewer than 41 characters is never important, whatever keywords it holds.
\<close>

theorem is_important_iff:
  "(is_important text \<longleftrightarrow>
      length text > 40 \<and> (\<exists>kw\<in>set important_keywords. ci_contains kw text))
   \<and> (length text < 41 \<longrightarrow> \<not> is_important text)"
  by (auto simp: is_important_def any_kw_iff)

theorem is_important_iff_witness:
  "length ''We decided it'' < 41 \<and> \<not> is_important ''We decided it''
   \<and> ci_contains ''decided'' ''We decided it''"
proof -
  have short: "length ''We decided it'' < 41" by simp
  have "\<not> is_important ''We decided it''"
    using is_important_iff [of "''We decided it''"] short by blast
  moreover have "ci_contains ''decided'' ''We decided it''"
    by (simp add: ci_contains_lower lower_def lower_char_def)
  ultimately show ?thesis using short by blast
qed

section \<open>The classification\<close>

lemma get_category_table: "get_category text = classify_spec text"
  by (simp add: get_category_def classify_spec_def category_table_def any_kw_iff)

lemma lower_decided: "lower ''decided'' = ''decided''"
  by (simp add: lower_def lower_char_def)

text \<open>
  C5. \<open>get_category\<close> tries the keyword groups in the order decision, discovery,
  implementation, issue, success and answers with the category of the first group one of
  whose keywords is a case-insensitive substring of the text, else with \<open>outcome\<close>; a
  text that contains both \<open>decided\<close> and \<open>fixed\<close> is a decision.
\<close>

theorem get_category_priority:
  "get_category text = classify_spec text
   \<and> map fst category_table
       = [''decision'', ''discovery'', ''implementation'', ''issue'', ''success'']
   \<and> (sublist ''decided'' text \<and> sublist ''fixed'' text \<longrightarrow> get_category text = ''decision'')"
proof -
  have "get_category text = ''decision''" if "sublist ''decided'' text"
  proof -
    have "ci_contains ''decided'' text"
      using that lower_decided by (rule ci_contains_literal)
    then have "any_kw decision_keywords (lower text)"
      by (simp add: any_kw_iff decision_keywords_def)
    then show ?thesis by (simp add: get_category_def)
  qed
  then show ?thesis
    by (simp add: get_category_table category_table_def)
qed

theorem get_category_priority_witness:
  "sublist ''decided'' ''we fixed it as decided'' \<and> sublist ''fixed'' ''we fixed it as decided''
   \<and> get_category ''we fixed it as decided'' = ''decision''
   \<and> classify_spec ''we fixed it as decided'' = ''decision''"
proof -
  have d: "sublist ''decided'' ''we fixed it as decided''"
    by (simp add: contains_sublist [symmetric])
  have f: "sublist ''fixed'' ''we fixed it as decided''"
    by (simp add: contains_sublist [symmetric])
  from get_category_priority [of "''we fixed it as decided''"] d f
  show ?thesis by metis
qed

section \<open>Keywords that are important and yet uncategorised\<close>

lemma category_keywords_eval:
  "category_keywords =
     [''decided'', ''decision'', ''determined'',
      ''discovered'', ''found'', ''realized'', ''insight'',
      ''implemented'', ''built'', ''created'', ''fixed'',
      ''issue'', ''problem'', ''bug'', ''error'', ''blocker'',
      ''success'', ''succeeded'', ''resolved'', ''completed'']"
  by (simp add: category_keywords_def category_table_def decision_keywords_def
      discovery_keywords_def implementation_keywords_def issue_keywords_def
      success_keywords_def)

lemma category_subset_important: "set category_keywords \<subseteq> set important_keywords"
proof -
  have "list_all (\<lambda>kw. kw \<in> set important_keywords) category_keywords"
    by (simp add: category_keywords_eval important_keywords_def)
  then show ?thesis by (auto simp: list_all_iff)
qed

lemma extra_subset_important: "set extra_keywords \<subseteq> set important_keywords"
proof -
  have "list_all (\<lambda>kw. kw \<in> set important_keywords) extra_keywords"
    by (simp add: extra_keywords_def important_keywords_def)
  then show ?thesis by (auto simp: list_all_iff)
qed

lemma extra_not_category: "kw \<in> set extra_keywords \<Longrightarrow> kw \<notin> set category_keywords"
proof -
  have "list_all (\<lambda>kw. kw \<notin> set category_keywords) extra_keywords"
    by (simp add: extra_keywords_def category_keywords_eval)
  then show "kw \<in> set extra_keywords \<Longrightarrow> kw \<notin> set category_keywords"
    by (simp add: list_all_iff)
qed

lemma important_split:
  "kw \<in> set important_keywords \<Longrightarrow> kw \<in> set category_keywords \<or> kw \<in> set extra_keywords"
proof -
  have "list_all (\<lambda>kw. kw \<in> set category_keywords \<or> kw \<in> set extra_keywords)
          important_keywords"
    by (simp add: important_keywords_def category_keywords_eval extra_keywords_def)
  then show "kw \<in> set important_keywords
      \<Longrightarrow> kw \<in> set category_keywords \<or> kw \<in> set extra_keywords"
    by (simp add: list_all_iff)
qed

lemma outcome_iff:
  "get_category text = ''outcome'' \<longleftrightarrow> (\<forall>kw\<in>set category_keywords. \<not> ci_contains kw text)"
  by (simp add: get_category_table classify_spec_def category_keywords_def
      category_table_def ball_Un)

text \<open>
  C10. The keyword list of \<open>is_important\<close> holds every keyword of the five categories
  and nine more (working, achieved, solved, blocked, learned, identified, choose,
  selected, committed). A text of more than 40 characters that matches one of the nine
  and matches no keyword outside the nine is important and is classified \<open>outcome\<close>;
  such texts exist.
\<close>

theorem important_but_outcome:
  "set category_keywords \<subset> set important_keywords
   \<and> set important_keywords - set category_keywords = set extra_keywords
   \<and> (length text > 40
        \<and> (\<exists>kw\<in>set extra_keywords. ci_contains kw text)
        \<and> (\<forall>kw\<in>set important_keywords. ci_contains kw text \<longrightarrow> kw \<in> set extra_keywords)
      \<longrightarrow> is_important text \<and> get_category text = ''outcome'')
   \<and> (\<exists>t. is_important t \<and> get_category t = ''outcome'')"
proof (intro conjI impI)
  show diff: "set important_keywords - set category_keywords = set extra_keywords"
  proof (rule set_eqI)
    fix kw
    show "kw \<in> set important_keywords - set category_keywords \<longleftrightarrow> kw \<in> set extra_keywords"
      using extra_subset_important extra_not_category [of kw] important_split [of kw]
      by auto
  qed
  have "''working'' \<in> set extra_keywords" by (simp add: extra_keywords_def)
  then have "''working'' \<in> set important_keywords" "''working'' \<notin> set category_keywords"
    using extra_subset_important extra_not_category by auto
  then show "set category_keywords \<subset> set important_keywords"
    using category_subset_important by auto
next
  assume a: "length text > 40
        \<and> (\<exists>kw\<in>set extra_keywords. ci_contains kw text)
        \<and> (\<forall>kw\<in>set important_keywords. ci_contains kw text \<longrightarrow> kw \<in> set extra_keywords)"
  then obtain kw where kw: "kw \<in> set extra_keywords" "ci_contains kw text" by auto
  then have "kw \<in> set important_keywords" using extra_subset_important by auto
  with kw a show "is_important text"
    by (auto simp: is_important_def any_kw_iff)
  have "\<not> ci_contains k text" if "k \<in> set category_keywords" for k
  proof
    assume "ci_contains k text"
    moreover from that have "k \<in> set important_keywords"
      using category_subset_important by auto
    ultimately have "k \<in> set extra_keywords" using a by auto
    with that show False using extra_not_category by auto
  qed
  then show "get_category text = ''outcome''" by (simp add: outcome_iff)
next
  let ?t = "''The deployment pipeline is working again after the restart''"
  have "is_important ?t" by code_simp
  moreover have "\<forall>kw\<in>set category_keywords. \<not> ci_contains kw ?t"
    unfolding ci_contains_lower by code_simp
  then have "get_category ?t = ''outcome''" by (simp only: outcome_iff)
  ultimately show "\<exists>t. is_important t \<and> get_category t = ''outcome''" by blast
qed

theorem important_but_outcome_witness:
  "length ''Finally ACHIEVED a stable build of the new search service'' > 40
   \<and> ci_contains ''achieved'' ''Finally ACHIEVED a stable build of the new search service''
   \<and> is_important ''Finally ACHIEVED a stable build of the new search service''
   \<and> get_category ''Finally ACHIEVED a stable build of the new search service'' = ''outcome''"
proof -
  let ?t = "''Finally ACHIEVED a stable build of the new search service''"
  have len: "length ?t > 40" by simp
  have ach: "ci_contains ''achieved'' ?t"
    unfolding ci_contains_lower by code_simp
  then have ex: "\<exists>kw\<in>set extra_keywords. ci_contains kw ?t"
    by (simp add: extra_keywords_def)
  have only:
    "\<forall>kw\<in>set important_keywords. ci_contains kw ?t \<longrightarrow> kw \<in> set extra_keywords"
    unfolding ci_contains_lower by code_simp
  from important_but_outcome [of ?t] len ex only
  have "is_important ?t \<and> get_category ?t = ''outcome''" by (elim conjE impE) simp_all
  with len ach show ?thesis by simp
qed



section \<open>Text extraction\<close>

lemma collect_texts_filter:
  "collect_texts items = map text_field (filter is_text_block items)"
  by (induction items rule: collect_texts.induct) auto

lemma strs_of_all_str: "list_all is_str vs \<Longrightarrow> strs_of vs = Some (map str_val vs)"
proof (induction vs)
  case Nil
  then show ?case by simp
next
  case (Cons v vs)
  then show ?case by (cases v) auto
qed

text \<open>
  C7, as amended. For a message that is a dict: when its content is a string, the result
  is that string stripped; when its content is a list in which the \<open>text\<close> field of every
  dict tagged with the type \<open>text\<close> is a string or is missing, the result is the stripped
  space-join of the \<open>text\<close> fields of exactly the items that are dicts tagged with the
  type \<open>text\<close> (a missing field counting as the empty string), all other items ignored.
\<close>

theorem extract_text_content_spec:
  "(dict_get kvs ''content'' (JList []) = JStr s
      \<longrightarrow> extract_text_content (JDict kvs) = Inr (strip s))
   \<and> (dict_get kvs ''content'' (JList []) = JList items
        \<and> (\<forall>item\<in>set items. is_text_block item \<longrightarrow> is_str (text_field item))
      \<longrightarrow> extract_text_content (JDict kvs)
          = Inr (strip (str_join '' ''
              (map (\<lambda>item. str_val (text_field item)) (filter is_text_block items)))))"
proof (intro conjI impI)
  assume "dict_get kvs ''content'' (JList []) = JStr s"
  then show "extract_text_content (JDict kvs) = Inr (strip s)"
    by (simp add: extract_text_content_def)
next
  assume a: "dict_get kvs ''content'' (JList []) = JList items
     \<and> (\<forall>item\<in>set items. is_text_block item \<longrightarrow> is_str (text_field item))"
  then have "list_all is_str (collect_texts items)"
    by (simp add: collect_texts_filter list_all_iff)
  then have "strs_of (collect_texts items) = Some (map str_val (collect_texts items))"
    by (rule strs_of_all_str)
  with a show "extract_text_content (JDict kvs)
      = Inr (strip (str_join '' ''
          (map (\<lambda>item. str_val (text_field item)) (filter is_text_block items))))"
    by (simp add: extract_text_content_def py_join_def collect_texts_filter comp_def)
qed

theorem extract_text_content_spec_witness:
  "extract_text_content
     (JDict [(''role'', JStr ''user''),
             (''content'',
              JList [JDict [(''type'', JStr ''text''), (''text'', JStr '' We fixed'')],
                     JDict [(''type'', JStr ''image''), (''text'', JNum 7)],
                     JStr ''stray'',
                     JDict [(''type'', JStr ''text'')],
                     JDict [(''type'', JStr ''text''), (''text'', JStr ''the bug '')]])])
   = Inr ''We fixed  the bug''
   \<and> extract_text_content (JDict [(''content'', JStr ''  hello  '')]) = Inr ''hello''"
proof -
  let ?items = "[JDict [(''type'', JStr ''text''), (''text'', JStr '' We fixed'')],
                 JDict [(''type'', JStr ''image''), (''text'', JNum 7)],
                 JStr ''stray'',
                 JDict [(''type'', JStr ''text'')],
                 JDict [(''type'', JStr ''text''), (''text'', JStr ''the bug '')]]"
  let ?kvs = "[(''role'', JStr ''user''), (''content'', JList ?items)]"
  have c: "dict_get ?kvs ''content'' (JList []) = JList ?items"
    by (simp add: dict_get_def)
  have ok: "\<forall>item\<in>set ?items. is_text_block item \<longrightarrow> is_str (text_field item)"
    by (simp add: dict_get_def)
  have c2: "dict_get [(''content'', JStr ''  hello  '')] ''content'' (JList []) = JStr ''  hello  ''"
    by (simp add: dict_get_def)
  from extract_text_content_spec [of ?kvs "[]" ?items] c ok
  have "extract_text_content (JDict ?kvs)
      = Inr (strip (str_join '' ''
          (map (\<lambda>item. str_val (text_field item)) (filter is_text_block ?items))))"
    by blast
  then have one: "extract_text_content (JDict ?kvs) = Inr ''We fixed  the bug''"
    by (simp add: dict_get_def strip_def is_space_def)
  from extract_text_content_spec [of "[(''content'', JStr ''  hello  '')]" "''  hello  ''" "[]"] c2
  have "extract_text_content (JDict [(''content'', JStr ''  hello  '')]) = Inr (strip ''  hello  '')"
    by blast
  then have two: "extract_text_content (JDict [(''content'', JStr ''  hello  '')]) = Inr ''hello''"
    by (simp add: strip_def is_space_def)
  from one two show ?thesis by blast
qed

text \<open>
  C7 as stated is false: a text block whose \<open>text\<close> field is not a string makes
  \<open>" ".join\<close> raise TypeError, and a message that is not a dict has no \<open>get\<close>.
\<close>

theorem extract_text_content_counterexample:
  "extract_text_content
     (JDict [(''content'', JList [JDict [(''type'', JStr ''text''), (''text'', JNull)]])])
   = Inl (Exc TypeError ''sequence item: expected str instance'')
   \<and> extract_text_content (JStr ''hello'')
     = Inl (Exc AttributeError ''object has no attribute get'')"
  by (simp add: extract_text_content_def py_join_def dict_get_def)

section \<open>The file system calls\<close>

lemma STREAM_FILE_eval: "STREAM_FILE = ''/root/clawd/memory/stream.log''"
  by (simp add: STREAM_FILE_def WORKSPACE_def)

lemma STATE_FILE_eval: "STATE_FILE = ''/root/clawd/.memory-capture-state''"
  by (simp add: STATE_FILE_def WORKSPACE_def)

lemma stream_dir_eval: "os_path_dirname STREAM_FILE = ''/root/clawd/memory''"
  by (simp add: STREAM_FILE_eval os_path_dirname_def)

lemma stream_chain_eval:
  "dir_chain (os_path_dirname STREAM_FILE) = [''/root'', ''/root/clawd'', ''/root/clawd/memory'']"
  by (simp add: stream_dir_eval dir_chain_def)

lemma stream_not_in_chain: "STREAM_FILE \<notin> set (dir_chain (os_path_dirname STREAM_FILE))"
  unfolding stream_chain_eval by (simp add: STREAM_FILE_eval)

lemma stream_dir_in_chain:
  "os_path_dirname STREAM_FILE \<in> set (dir_chain (os_path_dirname STREAM_FILE))"
  unfolding stream_chain_eval by (simp add: stream_dir_eval)

lemma state_not_touched:
  "STATE_FILE \<noteq> STREAM_FILE"
  "STATE_FILE \<notin> set (dir_chain (os_path_dirname STREAM_FILE))"
  unfolding stream_chain_eval by (simp_all add: STREAM_FILE_eval STATE_FILE_eval)

lemma marker_not_in_empty: "\<not> contains (''hash:'' @ h) []"
  by simp

lemma already_captured_fst:
  "fst (already_captured s h) = contains (''hash:'' @ h) (log_content s)"
  by (simp add: already_captured_def path_exists_def read_file_def log_content_def
      split: option.splits node.splits bool.splits)

lemma already_captured_nodes: "nodes (snd (already_captured s h)) = nodes s"
  by (simp add: already_captured_def path_exists_def read_file_def
      split: option.splits node.splits bool.splits)

lemma already_captured_trace:
  "trace (snd (already_captured s h))
     = trace s @ (if nodes s STREAM_FILE = None then [Exists STREAM_FILE]
                  else [Exists STREAM_FILE, Read STREAM_FILE])"
  by (simp add: already_captured_def path_exists_def read_file_def
      split: option.splits node.splits bool.splits)

lemma makedirs_chain_other:
  "p \<notin> set ps \<Longrightarrow> nodes (snd (makedirs_chain s ps)) p = nodes s p"
  by (induction s ps rule: makedirs_chain.induct) (auto simp: Let_def split: option.splits node.splits)

lemma makedirs_chain_dirs:
  "fst (makedirs_chain s ps) = None \<Longrightarrow> q \<in> set ps \<Longrightarrow> nodes (snd (makedirs_chain s ps)) q = Some Dir"
proof (induction s ps rule: makedirs_chain.induct)
  case (1 s)
  then show ?case by simp
next
  case (2 s p ps)
  show ?case
  proof (cases "q \<in> set ps")
    case True
    with 2 show ?thesis by (auto simp: Let_def split: option.splits node.splits)
  next
    case False
    with 2 have "q = p" by simp
    with 2 False show ?thesis
      by (auto simp: Let_def makedirs_chain_other split: option.splits node.splits)
  qed
qed

lemma makedirs_chain_succeeds:
  "\<forall>p\<in>set ps. \<forall>c. nodes s p \<noteq> Some (File c) \<Longrightarrow> fst (makedirs_chain s ps) = None"
proof (induction s ps rule: makedirs_chain.induct)
  case (1 s)
  then show ?case by simp
next
  case (2 s p ps)
  then show ?case by (auto simp: Let_def split: option.splits node.splits)
qed

lemma makedirs_chain_fails:
  "fst (makedirs_chain s ps) = Some e \<Longrightarrow> \<exists>p\<in>set ps. \<exists>c. nodes s p = Some (File c)"
  using makedirs_chain_succeeds [of ps s] by (cases "fst (makedirs_chain s ps)") auto

lemma makedirs_chain_file:
  "nodes s p = Some (File c) \<Longrightarrow> nodes (snd (makedirs_chain s ps)) p = Some (File c)"
proof (induction s ps rule: makedirs_chain.induct)
  case (1 s)
  then show ?case by simp
next
  case (2 s q ps)
  show ?case
  proof (cases "nodes s q")
    case None
    with 2(3) have "p \<noteq> q" by auto
    with 2(3) have "nodes (s\<lparr>trace := trace s @ [Mkdir q], nodes := (nodes s)(q \<mapsto> Dir)\<rparr>) p
        = Some (File c)" by simp
    with 2(1) [OF refl None] None show ?thesis by (simp add: Let_def)
  next
    case (Some n)
    with 2 show ?thesis by (cases n) (auto simp: Let_def)
  qed
qed

lemma makedirs_chain_blocked:
  assumes "p \<in> set ps" and "nodes s p = Some (File c)"
  shows "fst (makedirs_chain s ps) \<noteq> None"
proof
  assume "fst (makedirs_chain s ps) = None"
  then have "nodes (snd (makedirs_chain s ps)) p = Some Dir"
    using assms(1) by (rule makedirs_chain_dirs)
  with makedirs_chain_file [OF assms(2), of ps] show False by simp
qed

lemma makedirs_chain_trace:
  "\<exists>ops. trace (snd (makedirs_chain s ps)) = trace s @ ops \<and> op_path ` set ops \<subseteq> set ps"
proof (induction s ps rule: makedirs_chain.induct)
  case (1 s)
  then show ?case by simp
next
  case (2 s p ps)
  show ?case
  proof (cases "nodes s p")
    case None
    let ?s1 = "s\<lparr>trace := trace s @ [Mkdir p], nodes := (nodes s)(p \<mapsto> Dir)\<rparr>"
    from 2(1) [OF refl None] obtain ops where
      "trace (snd (makedirs_chain ?s1 ps)) = trace ?s1 @ ops" "op_path ` set ops \<subseteq> set ps"
      by auto
    then have "trace (snd (makedirs_chain s (p # ps))) = trace s @ (Mkdir p # ops)
        \<and> op_path ` set (Mkdir p # ops) \<subseteq> set (p # ps)"
      using None by (auto simp: Let_def)
    then show ?thesis by blast
  next
    case (Some n)
    show ?thesis
    proof (cases n)
      case Dir
      let ?s1 = "s\<lparr>trace := trace s @ [Mkdir p]\<rparr>"
      from 2(2) [OF refl Some Dir] obtain ops where
        "trace (snd (makedirs_chain ?s1 ps)) = trace ?s1 @ ops" "op_path ` set ops \<subseteq> set ps"
        by auto
      then have "trace (snd (makedirs_chain s (p # ps))) = trace s @ (Mkdir p # ops)
          \<and> op_path ` set (Mkdir p # ops) \<subseteq> set (p # ps)"
        using Some Dir by (auto simp: Let_def)
      then show ?thesis by blast
    next
      case (File c)
      then have "trace (snd (makedirs_chain s (p # ps))) = trace s @ [Mkdir p]
          \<and> op_path ` set [Mkdir p] \<subseteq> set (p # ps)"
        using Some by (auto simp: Let_def)
      then show ?thesis by blast
    qed
  qed
qed


lemma makedirs_stream_file:
  "nodes (snd (makedirs s (os_path_dirname STREAM_FILE))) STREAM_FILE = nodes s STREAM_FILE"
  by (simp add: makedirs_def makedirs_chain_other stream_not_in_chain)

lemma makedirs_stream_dir:
  "fst (makedirs s (os_path_dirname STREAM_FILE)) = None
   \<Longrightarrow> nodes (snd (makedirs s (os_path_dirname STREAM_FILE))) (os_path_dirname STREAM_FILE)
       = Some Dir"
  by (simp add: makedirs_def makedirs_chain_dirs stream_dir_in_chain)

section \<open>Appending to the stream log\<close>

text \<open>
  The three ways a call of \<open>append_to_stream\<close> ends: the marker is in the log and
  nothing is written; the marker is not in the log and the block is appended; or the
  marker is not in the log and the write raises, with the log as it was.
\<close>

lemma append_to_stream_cases:
  fixes md5_hex ts s t category
  defines "r \<equiv> append_to_stream md5_hex ts s t category"
    and "marker \<equiv> ''hash:'' @ get_hash md5_hex t"
  shows
    "(fst r = Inr False \<and> contains marker (log_content s) \<and> nodes (snd r) = nodes s)
     \<or> (fst r = Inr True \<and> \<not> contains marker (log_content s) \<and> log_writable s
         \<and> nodes (snd r) STREAM_FILE
             = Some (File (log_content s
                  @ entry_block ts category t (get_hash md5_hex t))))
     \<or> ((\<exists>e. fst r = Inl e) \<and> \<not> contains marker (log_content s) \<and> \<not> log_writable s
         \<and> nodes (snd r) STREAM_FILE = nodes s STREAM_FILE)"
proof (cases "fst (already_captured s (get_hash md5_hex t))")
  case True
  define s1 where "s1 = snd (already_captured s (get_hash md5_hex t))"
  from True have "already_captured s (get_hash md5_hex t) = (True, s1)"
    by (simp add: s1_def prod_eq_iff)
  then have "r = (Inr False, snd (already_captured s (get_hash md5_hex t)))"
    by (simp add: r_def append_to_stream_def Let_def)
  with True show ?thesis
    by (simp add: already_captured_fst already_captured_nodes marker_def)
next
  case False
  define s1 where "s1 = snd (already_captured s (get_hash md5_hex t))"
  define m where "m = makedirs s1 (os_path_dirname STREAM_FILE)"
  define block where "block = entry_block ts category t (get_hash md5_hex t)"
  have ac: "already_captured s (get_hash md5_hex t) = (False, s1)"
    using False by (simp add: s1_def prod_eq_iff)
  have n1: "nodes s1 = nodes s" by (simp add: s1_def already_captured_nodes)
  have nm: "\<not> contains marker (log_content s)"
    using False by (simp add: already_captured_fst marker_def)
  have sf: "nodes (snd m) STREAM_FILE = nodes s STREAM_FILE"
    by (simp add: m_def makedirs_stream_file n1)
  show ?thesis
  proof (cases "fst m")
    case (Some e)
    then have "makedirs s1 (os_path_dirname STREAM_FILE) = (Some e, snd m)"
      by (simp add: m_def prod_eq_iff)
    then have "r = (Inl e, snd m)"
      by (simp add: r_def append_to_stream_def Let_def ac)
    moreover from Some have "\<exists>p\<in>set (dir_chain (os_path_dirname STREAM_FILE)).
        \<exists>c. nodes s p = Some (File c)"
      using makedirs_chain_fails [of s1 "dir_chain (os_path_dirname STREAM_FILE)" e]
      by (simp add: m_def makedirs_def n1)
    then have "\<not> log_writable s" by (auto simp: log_writable_def)
    ultimately show ?thesis using nm sf by simp
  next
    case None
    then have mk: "makedirs s1 (os_path_dirname STREAM_FILE) = (None, snd m)"
      by (simp add: m_def prod_eq_iff)
    have dir: "nodes (snd m) (os_path_dirname STREAM_FILE) = Some Dir"
      using None makedirs_stream_dir [of s1] by (simp add: m_def)
    have chain_ok: "\<forall>p\<in>set (dir_chain (os_path_dirname STREAM_FILE)).
        \<forall>c. nodes s p \<noteq> Some (File c)"
    proof (intro ballI allI notI)
      fix p c
      assume p: "p \<in> set (dir_chain (os_path_dirname STREAM_FILE))"
        and f: "nodes s p = Some (File c)"
      from p f n1 have "fst (makedirs_chain s1 (dir_chain (os_path_dirname STREAM_FILE))) \<noteq> None"
        using makedirs_chain_blocked [of p _ s1 c] by simp
      with None show False by (simp add: m_def makedirs_def)
    qed
    have r_eq: "r = (case append_file (snd m) STREAM_FILE block of
        (Some e, s3) \<Rightarrow> (Inl e, s3) | (None, s3) \<Rightarrow> (Inr True, s3))"
      by (simp add: r_def append_to_stream_def Let_def ac mk block_def)
    show ?thesis
    proof (cases "nodes s STREAM_FILE")
      case None
      then have "log_content s = []" by (simp add: log_content_def)
      moreover from None have "log_writable s"
        using chain_ok by (simp add: log_writable_def)
      ultimately show ?thesis
        using None nm sf dir r_eq by (simp add: append_file_def Let_def block_def)
    next
      case (Some n)
      show ?thesis
      proof (cases n)
        case Dir
        then have "\<not> log_writable s" using Some by (simp add: log_writable_def)
        then show ?thesis
          using Some Dir nm sf r_eq by (simp add: append_file_def Let_def)
      next
        case (File c)
        then have "log_content s = c" using Some by (simp add: log_content_def)
        moreover have "log_writable s"
          using Some File chain_ok by (simp add: log_writable_def)
        ultimately show ?thesis
          using Some File nm sf r_eq by (simp add: append_file_def Let_def block_def)
      qed
    qed
  qed
qed


lemma log_content_after:
  "nodes s' STREAM_FILE = Some (File c) \<Longrightarrow> log_content s' = c"
  by (simp add: log_content_def)

lemma log_content_same:
  "nodes s' STREAM_FILE = nodes s STREAM_FILE \<Longrightarrow> log_content s' = log_content s"
  by (simp add: log_content_def)

lemma block_has_marker: "contains (''hash:'' @ h) (c @ entry_block ts category t h)"
proof -
  have "c @ entry_block ts category t h
      = (c @ ''\<newline>---\<newline>'' @ (''['' @ ts @ ''] ['' @ category @ '']\<newline>'') @ (t @ ''\<newline>''))
        @ (''hash:'' @ h) @ ''\<newline>''"
    by (simp add: entry_block_def)
  then show ?thesis unfolding contains_iff by blast
qed

lemma contains_append_left:
  assumes "contains sub c"
  shows "contains sub (c @ d)"
proof -
  from assms obtain pre suf where "c = pre @ sub @ suf" unfolding contains_iff by blast
  then have "c @ d = pre @ sub @ (suf @ d)" by simp
  then show ?thesis unfolding contains_iff by blast
qed

lemma append_to_stream_returns:
  assumes "log_writable s"
  shows "\<exists>b. fst (append_to_stream md5_hex ts s t category) = Inr b"
  using append_to_stream_cases [of md5_hex ts s t category] assms by auto

lemma append_to_stream_new:
  assumes "log_writable s" and "\<not> fst (already_captured s (get_hash md5_hex t))"
  shows "fst (append_to_stream md5_hex ts s t category) = Inr True
    \<and> log_content (snd (append_to_stream md5_hex ts s t category))
        = log_content s @ entry_block ts category t (get_hash md5_hex t)"
  using append_to_stream_cases [of md5_hex ts s t category] assms
  by (auto simp: already_captured_fst log_content_after)

lemma empty_fs_writable: "log_writable empty_fs"
  by (simp add: log_writable_def empty_fs_def)

lemma empty_fs_content: "log_content empty_fs = []"
  by (simp add: log_content_def empty_fs_def)

lemma empty_fs_not_captured: "\<not> fst (already_captured empty_fs h)"
  by (simp add: already_captured_fst empty_fs_content)

text \<open>
  C2. After a call of \<open>append_to_stream\<close> that returned True, \<open>already_captured\<close> finds
  the digest of the text in the log: the content is now the old one followed by the
  block, and the block holds the marker.
\<close>

theorem append_then_captured:
  "fst (append_to_stream md5_hex ts s t category) = Inr True
   \<Longrightarrow> fst (already_captured (snd (append_to_stream md5_hex ts s t category))
            (get_hash md5_hex t))
     \<and> log_content (snd (append_to_stream md5_hex ts s t category))
         = log_content s @ entry_block ts category t (get_hash md5_hex t)
     \<and> contains (''hash:'' @ get_hash md5_hex t)
           (entry_block ts category t (get_hash md5_hex t))"
proof -
  assume "fst (append_to_stream md5_hex ts s t category) = Inr True"
  with append_to_stream_cases [of md5_hex ts s t category]
  have "log_content (snd (append_to_stream md5_hex ts s t category))
      = log_content s @ entry_block ts category t (get_hash md5_hex t)"
    by (auto simp: log_content_after)
  moreover have "contains (''hash:'' @ get_hash md5_hex t)
      (log_content s @ entry_block ts category t (get_hash md5_hex t))"
    by (rule block_has_marker)
  moreover have "contains (''hash:'' @ get_hash md5_hex t)
      ([] @ entry_block ts category t (get_hash md5_hex t))"
    by (rule block_has_marker)
  ultimately show ?thesis
    by (simp only: already_captured_fst append_Nil simp_thms)
qed

theorem append_then_captured_witness:
  "\<forall>md5_hex.
     fst (append_to_stream md5_hex ''2025-03-01 10:15:00 UTC'' empty_fs scenario_text ''decision'')
       = Inr True
     \<and> fst (already_captured
           (snd (append_to_stream md5_hex ''2025-03-01 10:15:00 UTC'' empty_fs scenario_text
                  ''decision''))
           (get_hash md5_hex scenario_text))"
proof
  fix md5_hex :: "string \<Rightarrow> string"
  have ok: "fst (append_to_stream md5_hex ''2025-03-01 10:15:00 UTC'' empty_fs scenario_text
      ''decision'') = Inr True"
    using append_to_stream_new [OF empty_fs_writable empty_fs_not_captured] by blast
  from append_then_captured [OF ok] ok
  show "fst (append_to_stream md5_hex ''2025-03-01 10:15:00 UTC'' empty_fs scenario_text ''decision'')
       = Inr True
     \<and> fst (already_captured
           (snd (append_to_stream md5_hex ''2025-03-01 10:15:00 UTC'' empty_fs scenario_text
                  ''decision''))
           (get_hash md5_hex scenario_text))"
    by blast
qed

lemma append_to_stream_dup_trace:
  assumes "fst (already_captured s (get_hash md5_hex t))"
  shows "trace (snd (append_to_stream md5_hex ts s t category))
      = trace s @ [Exists STREAM_FILE, Read STREAM_FILE]"
proof -
  define s1 where "s1 = snd (already_captured s (get_hash md5_hex t))"
  from assms have ac: "already_captured s (get_hash md5_hex t) = (True, s1)"
    by (simp add: s1_def prod_eq_iff)
  from assms have "nodes s STREAM_FILE \<noteq> None"
    by (auto simp: already_captured_fst log_content_def split: option.splits)
  then have "trace s1 = trace s @ [Exists STREAM_FILE, Read STREAM_FILE]"
    by (simp add: s1_def already_captured_trace)
  then show ?thesis by (simp add: append_to_stream_def Let_def ac)
qed

text \<open>
  C1. When the log holds the marker of the digest of a text, \<open>append_to_stream\<close> returns
  False and writes nothing: every file and directory is as before, and the only calls
  are the test for the log and its read. So when a first call with a text has returned,
  a second call with the same text returns False and leaves the log as the first call
  left it; over both calls the log grew by exactly one block when the first call
  returned True (the text was new), and not at all when it returned False.
\<close>

theorem append_to_stream_idempotent:
  "(fst (already_captured s (get_hash md5_hex t))
      \<longrightarrow> fst (append_to_stream md5_hex ts s t category) = Inr False
          \<and> nodes (snd (append_to_stream md5_hex ts s t category)) = nodes s
          \<and> trace (snd (append_to_stream md5_hex ts s t category))
              = trace s @ [Exists STREAM_FILE, Read STREAM_FILE])
   \<and> (fst (append_to_stream md5_hex ts s t category) = Inr r1
      \<longrightarrow> fst (append_to_stream md5_hex ts' (snd (append_to_stream md5_hex ts s t category))
                 t category) = Inr False
          \<and> nodes (snd (append_to_stream md5_hex ts'
                 (snd (append_to_stream md5_hex ts s t category)) t category))
              = nodes (snd (append_to_stream md5_hex ts s t category))
          \<and> log_content (snd (append_to_stream md5_hex ts'
                 (snd (append_to_stream md5_hex ts s t category)) t category))
              = log_content s
                @ (if r1 then entry_block ts category t (get_hash md5_hex t) else []))"
proof (intro conjI impI)
  assume "fst (already_captured s (get_hash md5_hex t))"
  then have c: "contains (''hash:'' @ get_hash md5_hex t) (log_content s)"
    by (simp only: already_captured_fst)
  with append_to_stream_cases [of md5_hex ts s t category]
  show "fst (append_to_stream md5_hex ts s t category) = Inr False"
    and "nodes (snd (append_to_stream md5_hex ts s t category)) = nodes s"
    by blast+
next
  assume "fst (already_captured s (get_hash md5_hex t))"
  then show "trace (snd (append_to_stream md5_hex ts s t category))
      = trace s @ [Exists STREAM_FILE, Read STREAM_FILE]"
    by (rule append_to_stream_dup_trace)
next
  assume first: "fst (append_to_stream md5_hex ts s t category) = Inr r1"
  define s1 where "s1 = snd (append_to_stream md5_hex ts s t category)"
  have grown: "log_content s1
      = log_content s @ (if r1 then entry_block ts category t (get_hash md5_hex t) else [])"
    and has: "contains (''hash:'' @ get_hash md5_hex t) (log_content s1)"
  proof -
    from append_to_stream_cases [of md5_hex ts s t category] first
    consider (dup) "r1 = False" "contains (''hash:'' @ get_hash md5_hex t) (log_content s)"
        "nodes s1 = nodes s"
      | (new) "r1 = True" "nodes s1 STREAM_FILE
          = Some (File (log_content s @ entry_block ts category t (get_hash md5_hex t)))"
      unfolding s1_def by auto
    then have "log_content s1
        = log_content s @ (if r1 then entry_block ts category t (get_hash md5_hex t) else [])
      \<and> contains (''hash:'' @ get_hash md5_hex t) (log_content s1)"
    proof cases
      case dup
      then show ?thesis by (simp add: log_content_def)
    next
      case new
      then have "log_content s1
          = log_content s @ entry_block ts category t (get_hash md5_hex t)"
        by (simp only: log_content_after)
      moreover have "contains (''hash:'' @ get_hash md5_hex t)
          (log_content s @ entry_block ts category t (get_hash md5_hex t))"
        by (rule block_has_marker)
      ultimately show ?thesis using new(1) by (simp only: if_True simp_thms)
    qed
    then show "log_content s1
        = log_content s @ (if r1 then entry_block ts category t (get_hash md5_hex t) else [])"
      and "contains (''hash:'' @ get_hash md5_hex t) (log_content s1)"
      by blast+
  qed
  from append_to_stream_cases [of md5_hex ts' s1 t category] has
  have second: "fst (append_to_stream md5_hex ts' s1 t category) = Inr False"
    and same: "nodes (snd (append_to_stream md5_hex ts' s1 t category)) = nodes s1"
    by blast+
  from same have "log_content (snd (append_to_stream md5_hex ts' s1 t category)) = log_content s1"
    by (simp add: log_content_def)
  with grown second same
  show "fst (append_to_stream md5_hex ts' (snd (append_to_stream md5_hex ts s t category))
                 t category) = Inr False"
    and "nodes (snd (append_to_stream md5_hex ts'
                 (snd (append_to_stream md5_hex ts s t category)) t category))
              = nodes (snd (append_to_stream md5_hex ts s t category))"
    and "log_content (snd (append_to_stream md5_hex ts'
                 (snd (append_to_stream md5_hex ts s t category)) t category))
              = log_content s
                @ (if r1 then entry_block ts category t (get_hash md5_hex t) else [])"
    unfolding s1_def by simp_all
qed


theorem append_to_stream_idempotent_witness:
  "\<forall>md5_hex.
     fst (append_to_stream md5_hex ''2025-03-01 10:15:00 UTC'' empty_fs scenario_text
            ''decision'') = Inr True
     \<and> fst (already_captured
           (snd (append_to_stream md5_hex ''2025-03-01 10:15:00 UTC'' empty_fs scenario_text
                  ''decision''))
           (get_hash md5_hex scenario_text))
     \<and> fst (append_to_stream md5_hex ''2025-03-01 10:20:00 UTC''
           (snd (append_to_stream md5_hex ''2025-03-01 10:15:00 UTC'' empty_fs scenario_text
                  ''decision''))
           scenario_text ''decision'') = Inr False
     \<and> log_content
          (snd (append_to_stream md5_hex ''2025-03-01 10:20:00 UTC''
             (snd (append_to_stream md5_hex ''2025-03-01 10:15:00 UTC'' empty_fs scenario_text
                    ''decision''))
             scenario_text ''decision''))
        = entry_block ''2025-03-01 10:15:00 UTC'' ''decision'' scenario_text
            (get_hash md5_hex scenario_text)"
proof
  fix md5_hex :: "string \<Rightarrow> string"
  let ?first = "append_to_stream md5_hex ''2025-03-01 10:15:00 UTC'' empty_fs scenario_text
      ''decision''"
  let ?second = "append_to_stream md5_hex ''2025-03-01 10:20:00 UTC'' (snd ?first)
      scenario_text ''decision''"
  let ?block = "entry_block ''2025-03-01 10:15:00 UTC'' ''decision'' scenario_text
      (get_hash md5_hex scenario_text)"
  have new: "fst ?first = Inr True \<and> log_content (snd ?first) = log_content empty_fs @ ?block"
    by (rule append_to_stream_new [OF empty_fs_writable empty_fs_not_captured])
  then have first: "fst ?first = Inr True" by blast
  have "contains (''hash:'' @ get_hash md5_hex scenario_text) (log_content empty_fs @ ?block)"
    by (rule block_has_marker)
  with new have cap: "fst (already_captured (snd ?first) (get_hash md5_hex scenario_text))"
    by (simp only: already_captured_fst)
  from append_to_stream_idempotent
    [of empty_fs md5_hex scenario_text "''2025-03-01 10:15:00 UTC''" "''decision''" True
      "''2025-03-01 10:20:00 UTC''"] first
  have "fst ?second = Inr False"
    and "log_content (snd ?second) = log_content empty_fs @ ?block"
    by simp_all
  with first cap
  show "fst ?first = Inr True
     \<and> fst (already_captured (snd ?first) (get_hash md5_hex scenario_text))
     \<and> fst ?second = Inr False
     \<and> log_content (snd ?second) = ?block"
    by (simp add: empty_fs_content)
qed

section \<open>The scenario of the specification\<close>

lemma scenario_important: "is_important scenario_text"
  by code_simp

lemma scenario_category: "get_category scenario_text = ''decision''"
  by code_simp

text \<open>
  C8, as amended. The text of the scenario has 63 characters and contains \<open>decided\<close>;
  it is important and a decision; and when the log does not hold the marker of its
  digest and can be written, \<open>append_to_stream\<close> appends the entry, with that digest, and
  returns True.
\<close>

theorem scenario_captured:
  "length scenario_text = 63
   \<and> sublist ''decided'' scenario_text
   \<and> is_important scenario_text
   \<and> get_category scenario_text = ''decision''
   \<and> (log_writable s \<and> \<not> fst (already_captured s (get_hash md5_hex scenario_text))
      \<longrightarrow> fst (append_to_stream md5_hex ts s scenario_text (get_category scenario_text))
            = Inr True
          \<and> log_content
               (snd (append_to_stream md5_hex ts s scenario_text (get_category scenario_text)))
             = log_content s
               @ entry_block ts ''decision'' scenario_text (get_hash md5_hex scenario_text))"
proof (intro conjI impI)
  show "length scenario_text = 63" by (simp add: scenario_text_def)
  show "sublist ''decided'' scenario_text"
    unfolding contains_sublist [symmetric] by code_simp
  show "is_important scenario_text" by (rule scenario_important)
  show "get_category scenario_text = ''decision''" by (rule scenario_category)
next
  assume a: "log_writable s \<and> \<not> fst (already_captured s (get_hash md5_hex scenario_text))"
  then have "fst (append_to_stream md5_hex ts s scenario_text ''decision'') = Inr True
    \<and> log_content (snd (append_to_stream md5_hex ts s scenario_text ''decision''))
        = log_content s @ entry_block ts ''decision'' scenario_text
            (get_hash md5_hex scenario_text)"
    using append_to_stream_new [of s md5_hex scenario_text ts "''decision''"] by blast
  then show "fst (append_to_stream md5_hex ts s scenario_text (get_category scenario_text))
            = Inr True"
    and "log_content
               (snd (append_to_stream md5_hex ts s scenario_text (get_category scenario_text)))
             = log_content s
               @ entry_block ts ''decision'' scenario_text (get_hash md5_hex scenario_text)"
    by (simp_all only: scenario_category)
qed

theorem scenario_captured_witness:
  "\<forall>md5_hex.
     log_writable empty_fs
     \<and> \<not> fst (already_captured empty_fs (get_hash md5_hex scenario_text))
     \<and> fst (append_to_stream md5_hex ''2025-03-01 10:15:00 UTC'' empty_fs scenario_text
            (get_category scenario_text)) = Inr True
     \<and> log_content
          (snd (append_to_stream md5_hex ''2025-03-01 10:15:00 UTC'' empty_fs scenario_text
             (get_category scenario_text)))
        = entry_block ''2025-03-01 10:15:00 UTC'' ''decision'' scenario_text
            (get_hash md5_hex scenario_text)"
proof
  fix md5_hex :: "string \<Rightarrow> string"
  from scenario_captured [of empty_fs md5_hex "''2025-03-01 10:15:00 UTC''"]
    empty_fs_writable empty_fs_not_captured [of "get_hash md5_hex scenario_text"]
  show "log_writable empty_fs
     \<and> \<not> fst (already_captured empty_fs (get_hash md5_hex scenario_text))
     \<and> fst (append_to_stream md5_hex ''2025-03-01 10:15:00 UTC'' empty_fs scenario_text
            (get_category scenario_text)) = Inr True
     \<and> log_content
          (snd (append_to_stream md5_hex ''2025-03-01 10:15:00 UTC'' empty_fs scenario_text
             (get_category scenario_text)))
        = entry_block ''2025-03-01 10:15:00 UTC'' ''decision'' scenario_text
            (get_hash md5_hex scenario_text)"
    by (simp add: empty_fs_content scenario_category)
qed

text \<open>
  C8 as stated is false in one point: the text of the scenario is not 68 characters long.
\<close>

theorem scenario_length_counterexample:
  "\<not> (length scenario_text = 68 \<and> is_important scenario_text
       \<and> get_category scenario_text = ''decision'')"
  by (simp add: scenario_text_def)

section \<open>Sequences of appends\<close>

lemma contains_prefix_mono:
  assumes "prefix c c'" and "contains sub c"
  shows "contains sub c'"
proof -
  from assms(1) obtain d where "c' = c @ d" by (auto simp: prefix_def)
  with assms(2) show ?thesis by (simp add: contains_append_left)
qed

lemma append_to_stream_prefix:
  "prefix (log_content s) (log_content (snd (append_to_stream md5_hex ts s t category)))"
  using append_to_stream_cases [of md5_hex ts s t category]
  by (auto simp: log_content_def)

lemma append_all_prefix:
  "append_all md5_hex s calls = (rs, s') \<Longrightarrow> prefix (log_content s) (log_content s')"
proof (induction calls arbitrary: s rs s')
  case Nil
  then show ?case by simp
next
  case (Cons call calls)
  obtain ts t category where call: "call = (ts, t, category)" by (cases call) auto
  define s1 where "s1 = snd (append_to_stream md5_hex ts s t category)"
  obtain rs1 s2 where rest: "append_all md5_hex s1 calls = (rs1, s2)"
    by (cases "append_all md5_hex s1 calls") auto
  from Cons.prems call rest have "s' = s2"
    by (simp add: s1_def split: prod.splits)
  moreover have "prefix (log_content s) (log_content s1)"
    unfolding s1_def by (rule append_to_stream_prefix)
  moreover from Cons.IH [OF rest] have "prefix (log_content s1) (log_content s2)" .
  ultimately show ?case by (auto intro: prefix_order.trans)
qed

text \<open>
  C3, as amended. In a sequence of calls of \<open>append_to_stream\<close> from any file system,
  the digests of the entries appended are pairwise distinct, the marker of none of them
  occurs in the content the log had at the start, the marker of each occurs in the
  content at the end, and the log only grows. (What the texts themselves hold is not
  counted: a text is written as it is.)
\<close>

theorem appended_hashes_distinct:
  "append_all md5_hex s calls = (rs, s')
   \<Longrightarrow> distinct (appended_hashes md5_hex calls rs)
     \<and> (\<forall>h\<in>set (appended_hashes md5_hex calls rs).
           \<not> contains (''hash:'' @ h) (log_content s)
           \<and> contains (''hash:'' @ h) (log_content s'))
     \<and> prefix (log_content s) (log_content s')"
proof (induction calls arbitrary: s rs s')
  case Nil
  then show ?case by auto
next
  case (Cons call calls)
  obtain ts t category where call: "call = (ts, t, category)" by (cases call) auto
  define r where "r = fst (append_to_stream md5_hex ts s t category)"
  define s1 where "s1 = snd (append_to_stream md5_hex ts s t category)"
  obtain rs1 s2 where rest: "append_all md5_hex s1 calls = (rs1, s2)"
    by (cases "append_all md5_hex s1 calls") auto
  from Cons.prems call rest have rs: "rs = r # rs1" and s': "s' = s2"
    by (simp_all add: r_def s1_def split: prod.splits)
  from Cons.IH [OF rest]
  have d1: "distinct (appended_hashes md5_hex calls rs1)"
    and h1: "\<And>h. h \<in> set (appended_hashes md5_hex calls rs1)
        \<Longrightarrow> \<not> contains (''hash:'' @ h) (log_content s1)
          \<and> contains (''hash:'' @ h) (log_content s2)"
    and p12: "prefix (log_content s1) (log_content s2)"
    by blast+
  have p01: "prefix (log_content s) (log_content s1)"
    unfolding s1_def by (rule append_to_stream_prefix)
  have old: "\<not> contains (''hash:'' @ h) (log_content s)"
    if "h \<in> set (appended_hashes md5_hex calls rs1)" for h
    using h1 [OF that] p01 contains_prefix_mono by blast
  have pre: "prefix (log_content s) (log_content s')"
    using p01 p12 s' by (auto intro: prefix_order.trans)
  show ?case
  proof (cases "r = Inr True")
    case False
    then have "appended_hashes md5_hex (call # calls) rs = appended_hashes md5_hex calls rs1"
      by (simp add: call rs)
    with d1 h1 old pre s' show ?thesis by auto
  next
    case True
    let ?h = "get_hash md5_hex t"
    from True append_to_stream_cases [of md5_hex ts s t category]
    have fresh: "\<not> contains (''hash:'' @ ?h) (log_content s)"
      and now: "log_content s1 = log_content s @ entry_block ts category t ?h"
      unfolding r_def s1_def by (auto simp: log_content_after)
    have "contains (''hash:'' @ ?h) (log_content s @ entry_block ts category t ?h)"
      by (rule block_has_marker)
    with now have in1: "contains (''hash:'' @ ?h) (log_content s1)" by (simp only:)
    then have in2: "contains (''hash:'' @ ?h) (log_content s2)"
      using p12 contains_prefix_mono by blast
    from in1 h1 have notin: "?h \<notin> set (appended_hashes md5_hex calls rs1)" by blast
    have eq: "appended_hashes md5_hex (call # calls) rs
        = ?h # appended_hashes md5_hex calls rs1"
      using True by (simp add: call rs)
    show ?thesis
      unfolding eq using d1 notin fresh in2 h1 old pre s' by auto
  qed
qed

lemma startswith_append: "startswith x sub \<Longrightarrow> startswith (x @ b) sub"
  by (induction x sub rule: startswith.induct) auto

lemma occurrences_least: "(if sub = [] then 1 else 0) \<le> occurrences sub b"
  by (induction b) auto

lemma occurrences_append_ge: "occurrences sub a \<le> occurrences sub (a @ b)"
proof (induction a)
  case Nil
  show ?case using occurrences_least [of sub b] by simp
next
  case (Cons x a)
  have "(if startswith (x # a) sub then 1 else 0)
      \<le> (if startswith ((x # a) @ b) sub then (1::nat) else 0)"
    using startswith_append [of "x # a" sub b] by auto
  with Cons show ?case by simp
qed


lemma append_twice_empty:
  fixes md5_hex :: "string \<Rightarrow> string"
  shows "fst (append_to_stream md5_hex ts1 empty_fs t c) = Inr True
    \<and> fst (append_to_stream md5_hex ts2 (snd (append_to_stream md5_hex ts1 empty_fs t c)) t c)
        = Inr False"
proof -
  let ?first = "append_to_stream md5_hex ts1 empty_fs t c"
  have new: "fst ?first = Inr True
      \<and> log_content (snd ?first) = log_content empty_fs @ entry_block ts1 c t (get_hash md5_hex t)"
    by (rule append_to_stream_new [OF empty_fs_writable empty_fs_not_captured])
  have "contains (''hash:'' @ get_hash md5_hex t)
      (log_content empty_fs @ entry_block ts1 c t (get_hash md5_hex t))"
    by (rule block_has_marker)
  with new have "contains (''hash:'' @ get_hash md5_hex t) (log_content (snd ?first))"
    by (simp only:)
  with append_to_stream_cases [of md5_hex ts2 "snd ?first" t c]
  have "fst (append_to_stream md5_hex ts2 (snd ?first) t c) = Inr False" by blast
  with new show ?thesis by blast
qed

theorem appended_hashes_distinct_witness:
  "\<forall>md5_hex.
     fst (append_all md5_hex empty_fs
            [(''2025-03-01 10:15:00 UTC'', scenario_text, ''decision''),
             (''2025-03-01 10:20:00 UTC'', scenario_text, ''decision'')])
       = [Inr True, Inr False]
     \<and> appended_hashes md5_hex
          [(''2025-03-01 10:15:00 UTC'', scenario_text, ''decision''),
           (''2025-03-01 10:20:00 UTC'', scenario_text, ''decision'')]
          [Inr True, Inr False]
        = [get_hash md5_hex scenario_text]
     \<and> contains (''hash:'' @ get_hash md5_hex scenario_text)
          (log_content (snd (append_all md5_hex empty_fs
            [(''2025-03-01 10:15:00 UTC'', scenario_text, ''decision''),
             (''2025-03-01 10:20:00 UTC'', scenario_text, ''decision'')])))"
proof
  fix md5_hex :: "string \<Rightarrow> string"
  let ?calls = "[(''2025-03-01 10:15:00 UTC'', scenario_text, ''decision''),
                 (''2025-03-01 10:20:00 UTC'', scenario_text, ''decision'')]"
  have rs: "fst (append_all md5_hex empty_fs ?calls) = [Inr True, Inr False]"
    using append_twice_empty [of md5_hex "''2025-03-01 10:15:00 UTC''" scenario_text
        "''decision''" "''2025-03-01 10:20:00 UTC''"]
    by (simp add: split_beta)
  then have run: "append_all md5_hex empty_fs ?calls
      = ([Inr True, Inr False], snd (append_all md5_hex empty_fs ?calls))"
    by (simp add: prod_eq_iff)
  have hs: "appended_hashes md5_hex ?calls [Inr True, Inr False]
      = [get_hash md5_hex scenario_text]"
    by simp
  from appended_hashes_distinct [OF run]
  have "\<forall>h\<in>set (appended_hashes md5_hex ?calls [Inr True, Inr False]).
      contains (''hash:'' @ h) (log_content (snd (append_all md5_hex empty_fs ?calls)))"
    by blast
  then have "contains (''hash:'' @ get_hash md5_hex scenario_text)
      (log_content (snd (append_all md5_hex empty_fs ?calls)))"
    unfolding hs by simp
  with rs hs
  show "fst (append_all md5_hex empty_fs ?calls) = [Inr True, Inr False]
     \<and> appended_hashes md5_hex ?calls [Inr True, Inr False] = [get_hash md5_hex scenario_text]
     \<and> contains (''hash:'' @ get_hash md5_hex scenario_text)
          (log_content (snd (append_all md5_hex empty_fs ?calls)))"
    by blast
qed

text \<open>
  C3 as stated is false. The text below, a message that quotes the same marker line
  twice, is important; appended to a log that does not exist yet (so no marker occurs
  twice in it), it leaves a log in which the marker \<open>hash:0123456789abcdef\<close> occurs
  twice, whatever the digest function is.
\<close>

theorem no_marker_twice_counterexample:
  "\<forall>md5_hex.
     is_important quoting_text
     \<and> no_marker_twice (log_content empty_fs)
     \<and> fst (append_to_stream md5_hex ''2025-03-01 10:15:00 UTC'' empty_fs quoting_text
            (get_category quoting_text)) = Inr True
     \<and> \<not> no_marker_twice
          (log_content
            (snd (append_to_stream md5_hex ''2025-03-01 10:15:00 UTC'' empty_fs quoting_text
               (get_category quoting_text))))"
proof
  fix md5_hex :: "string \<Rightarrow> string"
  let ?ts = "''2025-03-01 10:15:00 UTC''"
  let ?cat = "get_category quoting_text"
  let ?r = "append_to_stream md5_hex ?ts empty_fs quoting_text ?cat"
  let ?m = "''hash:'' @ ''0123456789abcdef''"
  have imp: "is_important quoting_text" by code_simp
  have before: "no_marker_twice (log_content empty_fs)"
    by (simp add: no_marker_twice_def empty_fs_content)
  have new: "fst ?r = Inr True
      \<and> log_content (snd ?r)
          = log_content empty_fs @ entry_block ?ts ?cat quoting_text (get_hash md5_hex quoting_text)"
    by (rule append_to_stream_new [OF empty_fs_writable empty_fs_not_captured])
  then have content: "log_content (snd ?r)
      = (''\<newline>---\<newline>'' @ (''['' @ ?ts @ ''] ['' @ ?cat @ '']\<newline>'') @ quoting_text)
        @ (''\<newline>'' @ (''hash:'' @ get_hash md5_hex quoting_text @ ''\<newline>''))"
    by (simp add: empty_fs_content entry_block_def)
  have "occurrences ?m
      (''\<newline>---\<newline>'' @ (''['' @ ?ts @ ''] ['' @ ?cat @ '']\<newline>'') @ quoting_text) = 2"
    by code_simp
  then have "2 \<le> occurrences ?m (log_content (snd ?r))"
    using occurrences_append_ge
      [of ?m "''\<newline>---\<newline>'' @ (''['' @ ?ts @ ''] ['' @ ?cat @ '']\<newline>'') @ quoting_text"
        "''\<newline>'' @ (''hash:'' @ get_hash md5_hex quoting_text @ ''\<newline>'')"]
    by (simp only: content)
  moreover have "is_digest ''0123456789abcdef''" by code_simp
  ultimately have "\<not> no_marker_twice (log_content (snd ?r))"
    unfolding no_marker_twice_def by (metis Suc_1 not_less_eq_eq)
  with imp before new
  show "is_important quoting_text
     \<and> no_marker_twice (log_content empty_fs)
     \<and> fst ?r = Inr True
     \<and> \<not> no_marker_twice (log_content (snd ?r))"
    by blast
qed

section \<open>Fetching fails soft\<close>

lemma run_openclaw_success:
  "fst (run_openclaw cli args)
   \<longleftrightarrow> (\<exists>argv out err. strs_of args = Some argv
          \<and> cli (''openclaw'' # argv) = Completed 0 out err)"
  by (auto simp: run_openclaw_def split: option.splits proc_result.splits)

lemma get_history_failed:
  assumes "\<not> fst (run_openclaw cli (sessions_history_args k))"
  shows "\<exists>line. get_history cli loads k = Inr (JList [], [line])"
  using assms by (auto simp: get_history_def log_def split: prod.splits)

lemma get_history_garbled:
  assumes "loads (fst (snd (run_openclaw cli (sessions_history_args k)))) = Inl e"
  shows "(\<exists>line. get_history cli loads k = Inr (JList [], [line]))
    \<or> (\<exists>e'. get_history cli loads k = Inl e')"
  using assms by (auto simp: get_history_def log_def split: prod.splits)

lemma get_recent_messages_list_failed:
  assumes "\<not> fst (run_openclaw cli sessions_list_args)"
  shows "\<exists>line. get_recent_messages cli loads = (JList [], [line])"
  using assms by (auto simp: get_recent_messages_def log_def split: prod.splits)

lemma get_recent_messages_try_result:
  assumes "fst (run_openclaw cli sessions_list_args)"
    and "(\<exists>line. get_recent_messages_try cli loads (fst (snd (run_openclaw cli sessions_list_args)))
            = Inr (JList [], [line]))
      \<or> (\<exists>e. get_recent_messages_try cli loads (fst (snd (run_openclaw cli sessions_list_args)))
            = Inl e)"
  shows "\<exists>line. get_recent_messages cli loads = (JList [], [line])"
  using assms by (auto simp: get_recent_messages_def log_def split: prod.splits)

text \<open>
  C6. \<open>run_openclaw\<close> reports success only for a command that completed with exit code
  0 (a time-out, a command that cannot be started and any other exception of
  \<open>subprocess.run\<close> are failures). Whenever the list call fails, or its output does not
  parse, or the history call made for the key of the main session fails, or its output
  does not parse, \<open>get_recent_messages\<close> returns the empty list and has logged one line.
  It is a total function: no exception leaves it.
\<close>

theorem get_recent_messages_fails_soft:
  "(fst (run_openclaw cli args)
      \<longleftrightarrow> (\<exists>argv out err. strs_of args = Some argv
             \<and> cli (''openclaw'' # argv) = Completed 0 out err))
   \<and> (\<not> fst (run_openclaw cli sessions_list_args)
       \<or> (\<exists>e. loads (fst (snd (run_openclaw cli sessions_list_args))) = Inl e)
       \<or> (\<exists>k. find_session_key loads (fst (snd (run_openclaw cli sessions_list_args)))
                 = Inr (Some k)
              \<and> (\<not> fst (run_openclaw cli (sessions_history_args k))
                  \<or> (\<exists>e. loads (fst (snd (run_openclaw cli (sessions_history_args k))))
                          = Inl e)))
      \<longrightarrow> fst (get_recent_messages cli loads) = JList []
          \<and> (\<exists>line. snd (get_recent_messages cli loads) = [line]))"
proof (intro conjI impI)
  show "fst (run_openclaw cli args)
      \<longleftrightarrow> (\<exists>argv out err. strs_of args = Some argv
             \<and> cli (''openclaw'' # argv) = Completed 0 out err)"
    by (rule run_openclaw_success)
next
  let ?out = "fst (snd (run_openclaw cli sessions_list_args))"
  assume a: "\<not> fst (run_openclaw cli sessions_list_args)
       \<or> (\<exists>e. loads ?out = Inl e)
       \<or> (\<exists>k. find_session_key loads ?out = Inr (Some k)
              \<and> (\<not> fst (run_openclaw cli (sessions_history_args k))
                  \<or> (\<exists>e. loads (fst (snd (run_openclaw cli (sessions_history_args k))))
                          = Inl e)))"
  have "\<exists>line. get_recent_messages cli loads = (JList [], [line])"
  proof (cases "fst (run_openclaw cli sessions_list_args)")
    case False
    then show ?thesis by (rule get_recent_messages_list_failed)
  next
    case True
    with a consider
      (parse) e where "loads ?out = Inl e"
      | (history) k where "find_session_key loads ?out = Inr (Some k)"
          "\<not> fst (run_openclaw cli (sessions_history_args k))
           \<or> (\<exists>e. loads (fst (snd (run_openclaw cli (sessions_history_args k)))) = Inl e)"
      by blast
    then have "(\<exists>line. get_recent_messages_try cli loads ?out = Inr (JList [], [line]))
      \<or> (\<exists>e. get_recent_messages_try cli loads ?out = Inl e)"
    proof cases
      case parse
      then have "find_session_key loads ?out = Inl e" by (simp add: find_session_key_def)
      then show ?thesis by (simp add: get_recent_messages_try_def)
    next
      case history
      from history(2) have "(\<exists>line. get_history cli loads k = Inr (JList [], [line]))
          \<or> (\<exists>e'. get_history cli loads k = Inl e')"
        using get_history_failed [of cli k loads] get_history_garbled [of loads cli k] by blast
      with history(1) show ?thesis by (simp add: get_recent_messages_try_def)
    qed
    with True show ?thesis by (rule get_recent_messages_try_result)
  qed
  then show "fst (get_recent_messages cli loads) = JList []"
    and "\<exists>line. snd (get_recent_messages cli loads) = [line]"
    by auto
qed


lemma example_list_call:
  "run_openclaw cli_ok sessions_list_args = (True, ''SESSIONS'', [])"
  "run_openclaw cli_history_fails sessions_list_args = (True, ''SESSIONS'', [])"
  "run_openclaw cli_history_garbled sessions_list_args = (True, ''SESSIONS'', [])"
  by (simp_all add: run_openclaw_def sessions_list_args_def cli_ok_def cli_history_fails_def
      cli_history_garbled_def list_argv_def)

lemma example_session_key:
  "find_session_key example_loads ''SESSIONS'' = Inr (Some (JStr ''agent:main:main''))"
  by (simp add: find_session_key_def example_loads_def dict_get_def)

lemma example_history_call:
  "run_openclaw cli_ok (sessions_history_args (JStr ''agent:main:main''))
     = (True, ''HISTORY'', [])"
  "run_openclaw cli_history_fails (sessions_history_args (JStr ''agent:main:main''))
     = (False, [], ''session store unavailable'')"
  "run_openclaw cli_history_garbled (sessions_history_args (JStr ''agent:main:main''))
     = (True, ''<html>502 Bad Gateway</html>'', [])"
  by (simp_all add: run_openclaw_def sessions_history_args_def cli_ok_def
      cli_history_fails_def cli_history_garbled_def list_argv_def history_argv_def)

theorem get_recent_messages_fails_soft_witness:
  "(\<not> fst (run_openclaw cli_timeout sessions_list_args)
    \<and> fst (get_recent_messages cli_timeout example_loads) = JList []
    \<and> (\<exists>line. snd (get_recent_messages cli_timeout example_loads) = [line]))
   \<and> (\<not> fst (run_openclaw cli_history_fails (sessions_history_args (JStr ''agent:main:main'')))
    \<and> fst (get_recent_messages cli_history_fails example_loads) = JList []
    \<and> (\<exists>line. snd (get_recent_messages cli_history_fails example_loads) = [line]))
   \<and> (example_loads ''<html>502 Bad Gateway</html>'' = Inl (Exc JSONDecodeError ''Expecting value'')
    \<and> fst (get_recent_messages cli_history_garbled example_loads) = JList []
    \<and> (\<exists>line. snd (get_recent_messages cli_history_garbled example_loads) = [line]))"
proof (intro conjI)
  show t: "\<not> fst (run_openclaw cli_timeout sessions_list_args)"
    by (simp add: run_openclaw_def sessions_list_args_def cli_timeout_def)
  from get_recent_messages_fails_soft [of cli_timeout "[]" example_loads] t
  show "fst (get_recent_messages cli_timeout example_loads) = JList []"
    and "\<exists>line. snd (get_recent_messages cli_timeout example_loads) = [line]"
    by blast+
next
  show f: "\<not> fst (run_openclaw cli_history_fails
      (sessions_history_args (JStr ''agent:main:main'')))"
    by (simp add: example_history_call)
  have k: "find_session_key example_loads
      (fst (snd (run_openclaw cli_history_fails sessions_list_args)))
      = Inr (Some (JStr ''agent:main:main''))"
    by (simp add: example_list_call example_session_key)
  from get_recent_messages_fails_soft [of cli_history_fails "[]" example_loads] f k
  show "fst (get_recent_messages cli_history_fails example_loads) = JList []"
    and "\<exists>line. snd (get_recent_messages cli_history_fails example_loads) = [line]"
    by blast+
next
  show g: "example_loads ''<html>502 Bad Gateway</html>''
      = Inl (Exc JSONDecodeError ''Expecting value'')"
    by (simp add: example_loads_def)
  have k: "find_session_key example_loads
      (fst (snd (run_openclaw cli_history_garbled sessions_list_args)))
      = Inr (Some (JStr ''agent:main:main''))"
    by (simp add: example_list_call example_session_key)
  have "loads_out = ''<html>502 Bad Gateway</html>''
    \<Longrightarrow> example_loads loads_out = Inl (Exc JSONDecodeError ''Expecting value'')"
    for loads_out by (simp add: g)
  then have e: "\<exists>e. example_loads (fst (snd (run_openclaw cli_history_garbled
      (sessions_history_args (JStr ''agent:main:main''))))) = Inl e"
    by (simp add: example_history_call)
  from get_recent_messages_fails_soft [of cli_history_garbled "[]" example_loads] k e
  show "fst (get_recent_messages cli_history_garbled example_loads) = JList []"
    and "\<exists>line. snd (get_recent_messages cli_history_garbled example_loads) = [line]"
    by blast+
qed

section \<open>The reserved state file\<close>

lemma only_touches_refl: "only_touches P s s"
  by (simp add: only_touches_def)

lemma only_touches_trace_only: "only_touches P s (s\<lparr>trace := trace s @ ops\<rparr>)"
  if "op_path ` set ops \<subseteq> P"
  using that by (auto simp: only_touches_def)

lemma only_touches_trans:
  assumes "only_touches P s s1" and "only_touches P s1 s2"
  shows "only_touches P s s2"
proof -
  from assms obtain ops1 ops2 where
    "trace s1 = trace s @ ops1" "op_path ` set ops1 \<subseteq> P"
    "trace s2 = trace s1 @ ops2" "op_path ` set ops2 \<subseteq> P"
    by (auto simp: only_touches_def)
  then have "trace s2 = trace s @ (ops1 @ ops2) \<and> op_path ` set (ops1 @ ops2) \<subseteq> P"
    by auto
  then have "\<exists>ops. trace s2 = trace s @ ops \<and> op_path ` set ops \<subseteq> P" by blast
  moreover from assms have "\<forall>p. p \<notin> P \<longrightarrow> nodes s2 p = nodes s p"
    by (auto simp: only_touches_def)
  ultimately show ?thesis by (simp add: only_touches_def)
qed

lemma only_touches_mono: "only_touches P s s' \<Longrightarrow> P \<subseteq> Q \<Longrightarrow> only_touches Q s s'"
  by (auto simp: only_touches_def)

lemma already_captured_touches:
  "only_touches {STREAM_FILE} s (snd (already_captured s h))"
  by (auto simp: only_touches_def already_captured_nodes already_captured_trace)

lemma makedirs_touches: "only_touches (set (dir_chain d)) s (snd (makedirs s d))"
  using makedirs_chain_trace [of s "dir_chain d"]
  by (auto simp: only_touches_def makedirs_def makedirs_chain_other)

lemma append_file_touches: "only_touches {p} s (snd (append_file s p out))"
  by (auto simp: only_touches_def append_file_def Let_def split: option.splits node.splits)

lemma append_to_stream_touches:
  "only_touches pipeline_paths s (snd (append_to_stream md5_hex ts s t category))"
proof -
  define s1 where "s1 = snd (already_captured s (get_hash md5_hex t))"
  define s2 where "s2 = snd (makedirs s1 (os_path_dirname STREAM_FILE))"
  define s3 where "s3 = snd (append_file s2 STREAM_FILE
      (entry_block ts category t (get_hash md5_hex t)))"
  have t1: "only_touches pipeline_paths s s1"
    unfolding s1_def
    by (rule only_touches_mono [OF already_captured_touches]) (simp add: pipeline_paths_def)
  have "only_touches pipeline_paths s1 s2"
    unfolding s2_def
    by (rule only_touches_mono [OF makedirs_touches]) (auto simp: pipeline_paths_def)
  with t1 have t2: "only_touches pipeline_paths s s2" by (rule only_touches_trans)
  have "only_touches pipeline_paths s2 s3"
    unfolding s3_def
    by (rule only_touches_mono [OF append_file_touches]) (simp add: pipeline_paths_def)
  with t2 have t3: "only_touches pipeline_paths s s3" by (rule only_touches_trans)
  have "snd (append_to_stream md5_hex ts s t category) \<in> {s1, s2, s3}"
    by (auto simp: append_to_stream_def Let_def s1_def s2_def s3_def
        split: prod.splits bool.splits option.splits)
  with t1 t2 t3 show ?thesis by auto
qed

lemma capture_loop_touches:
  "only_touches pipeline_paths s
     (fst (snd (capture_loop md5_hex clock i s diag captured msgs)))"
proof (induction msgs arbitrary: i s diag captured)
  case Nil
  show ?case by (simp add: only_touches_refl)
next
  case (Cons msg msgs)
  show ?case
  proof (cases "extract_text_content msg")
    case (Inl e)
    then show ?thesis by (simp add: only_touches_refl)
  next
    case (Inr t)
    show ?thesis
    proof (cases "t \<noteq> [] \<and> is_important t")
      case False
      with Inr Cons.IH [of s "i + 1" diag captured] show ?thesis by auto
    next
      case True
      obtain res s1 where a:
        "append_to_stream md5_hex (clock i) s t (get_category t) = (res, s1)"
        by (cases "append_to_stream md5_hex (clock i) s t (get_category t)") auto
      have step: "only_touches pipeline_paths s s1"
        using append_to_stream_touches [of s md5_hex "clock i" t "get_category t"]
        by (simp add: a)
      show ?thesis
      proof (cases res)
        case (Inl e)
        then have "capture_loop md5_hex clock i s diag captured (msg # msgs) = (Inl e, s1, diag)"
          using Inr True by (simp add: a Let_def)
        with step show ?thesis by simp
      next
        case b: (Inr b)
        show ?thesis
        proof (cases b)
          case True
          with b have "capture_loop md5_hex clock i s diag captured (msg # msgs)
              = capture_loop md5_hex clock (i + 1) s1
                  (log diag (''Captured: '' @ get_category t)) (captured + 1) msgs"
            using Inr \<open>t \<noteq> [] \<and> is_important t\<close> by (simp add: a Let_def)
          with only_touches_trans [OF step Cons.IH] show ?thesis by simp
        next
          case False
          with b have "capture_loop md5_hex clock i s diag captured (msg # msgs)
              = capture_loop md5_hex clock (i + 1) s1 diag captured msgs"
            using Inr \<open>t \<noteq> [] \<and> is_important t\<close> by (simp add: a Let_def)
          with only_touches_trans [OF step Cons.IH] show ?thesis by simp
        qed
      qed
    qed
  qed
qed

lemma main_touches:
  "only_touches pipeline_paths s (fst (snd (main md5_hex clock cli loads s)))"
proof -
  obtain messages d1 where g: "get_recent_messages cli loads = (messages, d1)"
    by (cases "get_recent_messages cli loads") auto
  show ?thesis
  proof (cases "truthy messages")
    case False
    then show ?thesis by (simp add: main_def g only_touches_refl)
  next
    case True
    show ?thesis
    proof (cases "py_len messages")
      case (Inl e)
      with True show ?thesis by (simp add: main_def g only_touches_refl)
    next
      case n: (Inr n)
      show ?thesis
      proof (cases "py_iter messages")
        case (Inl e)
        with True n show ?thesis by (simp add: main_def g Let_def only_touches_refl)
      next
        case (Inr msgs)
        define d2 where
          "d2 = log (log [] ''MemoryCapture Franklin starting...'' @ d1)
                  (''Found '' @ str_of_nat n @ '' messages to analyze'')"
        obtain r s3 d3 where c: "capture_loop md5_hex clock 0 s d2 0 msgs = (r, s3, d3)"
          by (cases "capture_loop md5_hex clock 0 s d2 0 msgs") auto
        have "main md5_hex clock cli loads s
            = (case capture_loop md5_hex clock 0 s d2 0 msgs of
                 (Inl e, s', d3) \<Rightarrow> (Some e, s', d3)
               | (Inr captured, s', d3) \<Rightarrow>
                   (None, s',
                    log d3 (''Complete: captured '' @ str_of_nat captured @ '' entries'')))"
          using True n Inr by (simp add: main_def g Let_def d2_def)
        then have "fst (snd (main md5_hex clock cli loads s)) = s3"
          by (cases r) (simp_all add: c)
        moreover have "only_touches pipeline_paths s s3"
          using capture_loop_touches [of s md5_hex clock 0 d2 0 msgs] by (simp add: c)
        ultimately show ?thesis by simp
      qed
    qed
  qed
qed

lemma state_file_outside: "STATE_FILE \<notin> pipeline_paths"
  using state_not_touched by (simp add: pipeline_paths_def)

text \<open>
  C9. In a run of \<open>main\<close>, from any file system and with any command line, parser,
  clock and digest function, what is at the path of the state file stays as it was, and
  no call of the run (test for existence, read, mkdir, append) is given that path: the
  run is given only the path of the log, of its directory and of the ancestors of that.
  (The messages come from \<open>get_recent_messages\<close> alone, which takes no file system.)
\<close>

theorem state_file_untouched:
  "main md5_hex clock cli loads s = (outcome, s', diag)
   \<Longrightarrow> nodes s' STATE_FILE = nodes s STATE_FILE
     \<and> (\<exists>ops. trace s' = trace s @ ops \<and> (\<forall>op\<in>set ops. op_path op \<noteq> STATE_FILE))
     \<and> only_touches pipeline_paths s s'
     \<and> STATE_FILE \<notin> pipeline_paths"
proof -
  assume "main md5_hex clock cli loads s = (outcome, s', diag)"
  then have "s' = fst (snd (main md5_hex clock cli loads s))" by simp
  then have t: "only_touches pipeline_paths s s'" by (simp add: main_touches)
  then obtain ops where ops: "trace s' = trace s @ ops" "op_path ` set ops \<subseteq> pipeline_paths"
    by (auto simp: only_touches_def)
  from ops(2) state_file_outside have "\<forall>op\<in>set ops. op_path op \<noteq> STATE_FILE" by auto
  with ops(1) have "\<exists>ops. trace s' = trace s @ ops \<and> (\<forall>op\<in>set ops. op_path op \<noteq> STATE_FILE)"
    by blast
  moreover from t state_file_outside have "nodes s' STATE_FILE = nodes s STATE_FILE"
    by (simp add: only_touches_def)
  ultimately show ?thesis using t state_file_outside by blast
qed


lemma example_messages:
  "get_recent_messages cli_ok example_loads
   = (JList [JDict [(''role'', JStr ''user''), (''content'', JStr ''ok'')],
             JDict [(''role'', JStr ''assistant''), (''content'', JStr scenario_text)],
             JDict [(''role'', JStr ''assistant''),
                    (''content'',
                     JList [JDict [(''type'', JStr ''text''),
                                   (''text'', JStr scenario_text)]])]],
      [])"
  by (simp add: get_recent_messages_def get_recent_messages_try_def example_list_call
      example_session_key get_history_def example_history_call example_loads_def
      dict_get_def)

lemma strip_scenario: "strip scenario_text = scenario_text"
  by (simp add: strip_def is_space_def scenario_text_def)

lemma example_texts:
  "extract_text_content (JDict [(''role'', JStr ''user''), (''content'', JStr ''ok'')])
   = Inr ''ok''"
  "extract_text_content
     (JDict [(''role'', JStr ''assistant''), (''content'', JStr scenario_text)])
   = Inr scenario_text"
  "extract_text_content
     (JDict [(''role'', JStr ''assistant''),
             (''content'',
              JList [JDict [(''type'', JStr ''text''), (''text'', JStr scenario_text)]])])
   = Inr scenario_text"
  by (simp_all add: extract_text_content_def dict_get_def py_join_def strip_scenario)
    (simp add: strip_def is_space_def)

lemma scenario_not_empty: "scenario_text \<noteq> []"
  by (simp add: scenario_text_def)

lemma append_empty_trace:
  "trace (snd (append_to_stream md5_hex ts empty_fs t c))
   = [Exists STREAM_FILE, Mkdir ''/root'', Mkdir ''/root/clawd'', Mkdir ''/root/clawd/memory'',
      Append STREAM_FILE]"
proof -
  define s1 where "s1 = snd (already_captured empty_fs (get_hash md5_hex t))"
  have ac: "already_captured empty_fs (get_hash md5_hex t) = (False, s1)"
    using empty_fs_not_captured [of "get_hash md5_hex t"] by (simp add: s1_def prod_eq_iff)
  have s1: "s1 = \<lparr>nodes = Map.empty, trace = [Exists STREAM_FILE]\<rparr>"
    by (simp add: s1_def already_captured_def path_exists_def empty_fs_def)
  define s2 where "s2 = snd (makedirs s1 (os_path_dirname STREAM_FILE))"
  have m: "makedirs s1 (os_path_dirname STREAM_FILE)
      = (None, \<lparr>nodes = [''/root'' \<mapsto> Dir, ''/root/clawd'' \<mapsto> Dir,
                          ''/root/clawd/memory'' \<mapsto> Dir],
               trace = [Exists STREAM_FILE, Mkdir ''/root'', Mkdir ''/root/clawd'',
                        Mkdir ''/root/clawd/memory'']\<rparr>)"
    unfolding makedirs_def stream_chain_eval s1 by (simp add: Let_def)
  then have mk: "makedirs s1 (os_path_dirname STREAM_FILE) = (None, s2)"
    and t2: "trace s2 = [Exists STREAM_FILE, Mkdir ''/root'', Mkdir ''/root/clawd'',
        Mkdir ''/root/clawd/memory'']"
    by (simp_all add: s2_def)
  have sf: "nodes s2 STREAM_FILE = None"
    using makedirs_stream_file [of s1] by (simp add: s2_def s1)
  from mk have "fst (makedirs s1 (os_path_dirname STREAM_FILE)) = None" by simp
  then have sd: "nodes s2 (os_path_dirname STREAM_FILE) = Some Dir"
    unfolding s2_def by (rule makedirs_stream_dir)
  show ?thesis
    by (simp add: append_to_stream_def Let_def ac mk append_file_def sf sd t2)
qed

theorem state_file_untouched_witness:
  "\<forall>md5_hex.
     fst (main md5_hex example_clock cli_ok example_loads empty_fs) = None
     \<and> nodes (fst (snd (main md5_hex example_clock cli_ok example_loads empty_fs))) STATE_FILE
        = None
     \<and> trace (fst (snd (main md5_hex example_clock cli_ok example_loads empty_fs)))
        = [Exists STREAM_FILE, Mkdir ''/root'', Mkdir ''/root/clawd'',
           Mkdir ''/root/clawd/memory'', Append STREAM_FILE,
           Exists STREAM_FILE, Read STREAM_FILE]
     \<and> snd (snd (main md5_hex example_clock cli_ok example_loads empty_fs))
        = [''MemoryCapture Franklin starting...'', ''Found 3 messages to analyze'',
           ''Captured: decision'', ''Complete: captured 1 entries'']"
proof
  fix md5_hex :: "string \<Rightarrow> string"
  let ?ts = "''2025-03-01 10:15:00 UTC''"
  let ?run = "main md5_hex example_clock cli_ok example_loads empty_fs"
  define s1 where "s1 = snd (append_to_stream md5_hex ?ts empty_fs scenario_text ''decision'')"
  define s2 where "s2 = snd (append_to_stream md5_hex ?ts s1 scenario_text ''decision'')"
  from append_twice_empty [of md5_hex ?ts scenario_text "''decision''" ?ts]
  have a1: "append_to_stream md5_hex ?ts empty_fs scenario_text ''decision'' = (Inr True, s1)"
    and a2: "append_to_stream md5_hex ?ts s1 scenario_text ''decision'' = (Inr False, s2)"
    by (simp_all add: prod_eq_iff s1_def s2_def)
  have ok: "\<not> is_important ''ok''" by (simp add: is_important_def)
  have run: "?run = (None, s2,
      [''MemoryCapture Franklin starting...'', ''Found 3 messages to analyze'',
       ''Captured: decision'', ''Complete: captured 1 entries''])"
    by (simp add: main_def example_messages example_texts ok scenario_important
        scenario_category scenario_not_empty log_def digit_char_def Let_def
        example_clock_def a1 a2)
  have cap: "fst (already_captured s1 (get_hash md5_hex scenario_text))"
    using a2 append_to_stream_cases [of md5_hex ?ts s1 scenario_text "''decision''"]
    by (auto simp: already_captured_fst)
  have tr: "trace s2
      = [Exists STREAM_FILE, Mkdir ''/root'', Mkdir ''/root/clawd'',
         Mkdir ''/root/clawd/memory'', Append STREAM_FILE,
         Exists STREAM_FILE, Read STREAM_FILE]"
    using append_to_stream_dup_trace [OF cap, of ?ts "''decision''"]
    by (simp add: append_empty_trace s1_def s2_def)
  from state_file_untouched [OF run]
  have "nodes s2 STATE_FILE = nodes empty_fs STATE_FILE" by blast
  then have "nodes s2 STATE_FILE = None" by (simp add: empty_fs_def)
  with run tr
  show "fst ?run = None
     \<and> nodes (fst (snd ?run)) STATE_FILE = None
     \<and> trace (fst (snd ?run))
        = [Exists STREAM_FILE, Mkdir ''/root'', Mkdir ''/root/clawd'',
           Mkdir ''/root/clawd/memory'', Append STREAM_FILE,
           Exists STREAM_FILE, Read STREAM_FILE]
     \<and> snd (snd ?run)
        = [''MemoryCapture Franklin starting...'', ''Found 3 messages to analyze'',
           ''Captured: decision'', ''Complete: captured 1 entries'']"
    by simp
qed

end
